theory Spec2Isabelle
  imports Main "HOL-Library.AList" "HOL-Library.Sublist"
begin

section \<open>Text\<close>

text \<open>
  A Python \<open>str\<close> is modelled as a \<open>string\<close>: a list of characters, each one a code
  point in the range 0..255, so that \<open>length\<close> counts what \<open>len\<close> counts. The character
  classes below are those of Python on this range: \<open>str.strip()\<close> removes the characters
  for which \<open>str.isspace\<close> holds, and \<open>\d\<close> matches the decimal digits, which are
  \<open>0\<close>..\<open>9\<close> only below code point 256.
\<close>

definition isspace :: "char \<Rightarrow> bool" where
  "isspace c =
     (let n = (of_char c :: nat)
      in (9 \<le> n \<and> n \<le> 13) \<or> (28 \<le> n \<and> n \<le> 32) \<or> n = 133 \<or> n = 160)"

definition lstrip :: "string \<Rightarrow> string" where
  "lstrip s = dropWhile isspace s"

definition rstrip :: "string \<Rightarrow> string" where
  "rstrip s = rev (dropWhile isspace (rev s))"

definition strip :: "string \<Rightarrow> string" where
  "strip s = rstrip (lstrip s)"

definition is_lower :: "char \<Rightarrow> bool" where
  \<comment> \<open>the class \<open>[a-z]\<close>\<close>
  "is_lower c = (let n = (of_char c :: nat) in 97 \<le> n \<and> n \<le> 122)"

definition is_upper :: "char \<Rightarrow> bool" where
  \<comment> \<open>the class \<open>[A-Z]\<close>\<close>
  "is_upper c = (let n = (of_char c :: nat) in 65 \<le> n \<and> n \<le> 90)"

definition is_digit :: "char \<Rightarrow> bool" where
  \<comment> \<open>the class \<open>\d\<close>\<close>
  "is_digit c = (let n = (of_char c :: nat) in 48 \<le> n \<and> n \<le> 57)"

definition special_characters :: string where
  \<comment> \<open>the class of line 79, with its escaped brackets and backslash and its final hyphen\<close>
  "special_characters =
     ''!@#$%^&*()_+={}[]|'' @ [CHR 0x5C] @ '':;'' @ [CHR 0x27] @ ''<>,.?/`~-''"

definition is_special :: "char \<Rightarrow> bool" where
  "is_special c = (c \<in> set special_characters)"

definition re_search :: "(char \<Rightarrow> bool) \<Rightarrow> string \<Rightarrow> bool" where
  \<comment> \<open>\<open>re.search\<close> of a single character class: some character of the text is in it\<close>
  "re_search cls s = list_ex cls s"

section \<open>Credential utilities\<close>

type_synonym bytes = "char list"

fun encode_char :: "char \<Rightarrow> bytes" where
  "encode_char c =
     (let n = (of_char c :: nat)
      in if n < 128 then [c] else [char_of (192 + n div 64), char_of (128 + n mod 64)])"

definition encode :: "string \<Rightarrow> bytes" where
  \<comment> \<open>\<open>str.encode()\<close>: UTF-8\<close>
  "encode s = concat (map encode_char s)"

text \<open>
  \<open>hashlib.sha256(...).hexdigest()\<close> is a library function; the model takes it as the
  parameter \<open>sha256_hexdigest\<close>, from the bytes hashed to the digest in hexadecimal.
\<close>

definition hash_password :: "(bytes \<Rightarrow> string) \<Rightarrow> string \<Rightarrow> string" where
  "hash_password sha256_hexdigest password = sha256_hexdigest (encode password)"

section \<open>Data model\<close>

record account =
  password_hash :: string
  my_list :: "string list"

text \<open>
  The account store is a Python \<open>dict\<close> from usernames to account records: an association
  list in insertion order. \<open>map_of\<close> is the lookup, \<open>AList.update\<close> the assignment
  \<open>accounts[k] = v\<close> (in place for a key that is there, at the end for a new one).
\<close>

type_synonym store = "(string \<times> account) list"

datatype page = Home | Register | Login | List_management

record state =
  accounts :: store
  page :: page
  logged_in_user :: "string option"
  accounts_file :: "string option"

text \<open>
  \<open>accounts\<close>, \<open>page\<close> and \<open>logged_in_user\<close> are the three entries of
  \<open>st.session_state\<close>; \<open>accounts_file\<close> is the content of \<open>accounts.json\<close>, \<open>None\<close> when
  the file does not exist. What the program writes is ASCII text (\<open>json.dump\<close> escapes
  every other character), which is its own encoding; what it reads is any sequence of
  bytes, decoded by the codec of the platform.
\<close>

datatype message = Error string | Warning string | Success string | Info string

datatype flow = Continue | Rerun

type_synonym result = "state \<times> message list \<times> flow"

datatype py_error = KeyError | UnicodeDecodeError | RecursionError | ValueError

section \<open>Persistence: writing\<close>

definition hex_digit :: "nat \<Rightarrow> char" where
  "hex_digit n = ''0123456789abcdef'' ! (n mod 16)"

definition u_escape :: "nat \<Rightarrow> string" where
  \<comment> \<open>\<open>'\\u{0:04x}'.format(n)\<close>\<close>
  "u_escape n =
     [CHR 0x5C, CHR ''u'', hex_digit (n div 4096), hex_digit (n div 256),
      hex_digit (n div 16), hex_digit n]"

definition escape_char :: "char \<Rightarrow> string" where
  \<comment> \<open>the replacement function of \<open>json.encoder.py_encode_basestring_ascii\<close>\<close>
  "escape_char c =
     (let n = (of_char c :: nat)
      in if n = 92 then [CHR 0x5C, CHR 0x5C]
         else if n = 34 then [CHR 0x5C, CHR 0x22]
         else if n = 8 then [CHR 0x5C, CHR ''b'']
         else if n = 12 then [CHR 0x5C, CHR ''f'']
         else if n = 10 then [CHR 0x5C, CHR ''n'']
         else if n = 13 then [CHR 0x5C, CHR ''r'']
         else if n = 9 then [CHR 0x5C, CHR ''t'']
         else if 32 \<le> n \<and> n \<le> 126 then [c]
         else u_escape n)"

definition encode_basestring_ascii :: "string \<Rightarrow> string" where
  "encode_basestring_ascii s = [CHR 0x22] @ concat (map escape_char s) @ [CHR 0x22]"

definition newline_indent :: "nat \<Rightarrow> string" where
  \<comment> \<open>\<open>'\n' + ' ' * (4 * level)\<close>\<close>
  "newline_indent level = CHR 0x0A # replicate (4 * level) CHR '' ''"

fun join :: "string \<Rightarrow> string list \<Rightarrow> string" where
  "join sep [] = []"
| "join sep [x] = x"
| "join sep (x # y # ys) = x @ sep @ join sep (y # ys)"

definition dump_list :: "nat \<Rightarrow> string list \<Rightarrow> string" where
  "dump_list level xs =
     (if xs = [] then ''[]''
      else ''['' @ newline_indent (level + 1)
           @ join ('','' @ newline_indent (level + 1)) (map encode_basestring_ascii xs)
           @ newline_indent level @ '']'')"

definition dump_account :: "nat \<Rightarrow> account \<Rightarrow> string" where
  "dump_account level a =
     ''{'' @ newline_indent (level + 1)
     @ encode_basestring_ascii ''password_hash'' @ '': ''
     @ encode_basestring_ascii (password_hash a)
     @ '','' @ newline_indent (level + 1)
     @ encode_basestring_ascii ''my_list'' @ '': '' @ dump_list (level + 1) (my_list a)
     @ newline_indent level @ ''}''"

definition dump_item :: "string \<times> account \<Rightarrow> string" where
  "dump_item = (\<lambda>(k, a). encode_basestring_ascii k @ '': '' @ dump_account 1 a)"

definition json_dump :: "store \<Rightarrow> string" where
  \<comment> \<open>\<open>json.dump(accounts, f, indent=4)\<close>: the text written\<close>
  "json_dump accs =
     (if accs = [] then ''{}''
      else ''{'' @ newline_indent 1
           @ join ('','' @ newline_indent 1) (map dump_item accs)
           @ newline_indent 0 @ ''}'')"

definition save_accounts :: "store \<Rightarrow> state \<Rightarrow> state" where
  \<comment> \<open>opening the file with mode \<open>'w'\<close> truncates or creates it\<close>
  "save_accounts accs st = st\<lparr>accounts_file := Some (json_dump accs)\<rparr>"

section \<open>Persistence: reading\<close>

text \<open>
  What \<open>json.load\<close> returns. A string of a JSON text can denote any code point through
  its \<open>\uXXXX\<close> escapes, so the strings of a value are lists of code points. A float is
  kept as the literal it was read from.
\<close>

datatype json =
  JNull
| JBool bool
| JInt int
| JFloat string
| JStr "nat list"
| JArr "json list"
| JObj "(nat list \<times> json) list"

text \<open>
  \<open>json.load\<close> raises \<open>JSONDecodeError\<close> on a text that is not JSON (\<open>Decode_error\<close>), and
  other errors on some texts: \<open>RecursionError\<close> when objects and arrays nest deeper than the
  interpreter allows, \<open>ValueError\<close> on an integer literal with more digits than
  \<open>sys.int_max_str_digits\<close>. Reading the file raises \<open>UnicodeDecodeError\<close> on bytes that the
  codec of the platform does not decode. These are parameters of the interpreter:
  \<open>codec\<close> decodes the bytes of a file opened in text mode (\<open>None\<close>: it has no text for
  them), \<open>recursion_limit\<close> is the number of objects and arrays, one inside the other, that
  the scanner may still enter when \<open>json.load\<close> is called, and \<open>int_max_str_digits\<close> is
  \<open>sys.get_int_max_str_digits()\<close>, 0 when no limit is set. A file that exists is a regular
  file that the program may read.
\<close>

record interpreter =
  codec :: "bytes \<Rightarrow> string option"
  recursion_limit :: nat
  int_max_str_digits :: nat

definition ascii_codec :: "bytes \<Rightarrow> string option" where
  \<comment> \<open>the codec \<open>ascii\<close>: one of those a platform may select\<close>
  "ascii_codec bs = (if list_all (\<lambda>b. (of_char b :: nat) < 128) bs then Some bs else None)"

datatype scanned = Out_of_fuel | Decode_error | Raised py_error | Scanned json string

definition is_whitespace :: "char \<Rightarrow> bool" where
  "is_whitespace c = (c = CHR '' '' \<or> c = CHR 0x09 \<or> c = CHR 0x0A \<or> c = CHR 0x0D)"

definition skip_whitespace :: "string \<Rightarrow> string" where
  "skip_whitespace s = dropWhile is_whitespace s"

definition hex_value :: "char \<Rightarrow> nat option" where
  "hex_value c =
     (let n = (of_char c :: nat)
      in if 48 \<le> n \<and> n \<le> 57 then Some (n - 48)
         else if 97 \<le> n \<and> n \<le> 102 then Some (n - 87)
         else if 65 \<le> n \<and> n \<le> 70 then Some (n - 55)
         else None)"

definition decode_hex4 :: "char \<Rightarrow> char \<Rightarrow> char \<Rightarrow> char \<Rightarrow> nat option" where
  "decode_hex4 a b c d =
     (case (hex_value a, hex_value b, hex_value c, hex_value d) of
        (Some h3, Some h2, Some h1, Some h0) \<Rightarrow> Some (((h3 * 16 + h2) * 16 + h1) * 16 + h0)
      | _ \<Rightarrow> None)"

definition backslash :: "char \<Rightarrow> nat option" where
  \<comment> \<open>the character after a backslash, other than \<open>u\<close>\<close>
  "backslash c =
     (if c = CHR 0x22 then Some 34
      else if c = CHR 0x5C then Some 92
      else if c = CHR ''/'' then Some 47
      else if c = CHR ''b'' then Some 8
      else if c = CHR ''f'' then Some 12
      else if c = CHR ''n'' then Some 10
      else if c = CHR ''r'' then Some 13
      else if c = CHR ''t'' then Some 9
      else None)"

definition is_high_surrogate :: "nat \<Rightarrow> bool" where
  "is_high_surrogate n = (55296 \<le> n \<and> n \<le> 56319)"

definition is_low_surrogate :: "nat \<Rightarrow> bool" where
  "is_low_surrogate n = (56320 \<le> n \<and> n \<le> 57343)"

definition join_surrogates :: "nat \<Rightarrow> nat \<Rightarrow> nat" where
  "join_surrogates hi lo = 65536 + ((hi - 55296) * 1024 + (lo - 56320))"

definition cons_char :: "nat \<Rightarrow> (nat list \<times> string) option \<Rightarrow> (nat list \<times> string) option" where
  "cons_char n r = (case r of None \<Rightarrow> None | Some (chars, rest) \<Rightarrow> Some (n # chars, rest))"

fun scanstring :: "string \<Rightarrow> (nat list \<times> string) option" where
  \<comment> \<open>the text after an opening quote, in strict mode: the string and the text after its
      closing quote\<close>
  "scanstring [] = None"
| "scanstring (c # s) =
     (if c = CHR 0x22 then Some ([], s)
      else if c \<noteq> CHR 0x5C then
        (if (of_char c :: nat) < 32 then None else cons_char (of_char c) (scanstring s))
      else
        (case s of
           [] \<Rightarrow> None
         | e # s1 \<Rightarrow>
             if e \<noteq> CHR ''u'' then
               (case backslash e of None \<Rightarrow> None | Some n \<Rightarrow> cons_char n (scanstring s1))
             else
               (case s1 of
                  h3 # h2 # h1 # h0 # s2 \<Rightarrow>
                    (case decode_hex4 h3 h2 h1 h0 of
                       None \<Rightarrow> None
                     | Some uni \<Rightarrow>
                         (case s2 of
                            b # u # g3 # g2 # g1 # g0 # s3 \<Rightarrow>
                              if is_high_surrogate uni \<and> b = CHR 0x5C \<and> u = CHR ''u'' then
                                (case decode_hex4 g3 g2 g1 g0 of
                                   None \<Rightarrow> None
                                 | Some uni2 \<Rightarrow>
                                     if is_low_surrogate uni2
                                     then cons_char (join_surrogates uni uni2) (scanstring s3)
                                     else cons_char uni (scanstring s2))
                              else cons_char uni (scanstring s2)
                          | _ \<Rightarrow> cons_char uni (scanstring s2)))
                | _ \<Rightarrow> None)))"

definition digits_value :: "string \<Rightarrow> int" where
  "digits_value ds = foldl (\<lambda>a d. 10 * a + (int (of_char d) - 48)) 0 ds"

definition match_number :: "nat \<Rightarrow> string \<Rightarrow> scanned" where
  \<comment> \<open>the longest prefix of the form \<open>-?(0|[1-9][0-9]*)(\.[0-9]+)?([eE][-+]?[0-9]+)?\<close>\<close>
  "match_number max_digits s =
     (let neg = (s \<noteq> [] \<and> hd s = CHR ''-'');
          s1 = (if neg then tl s else s)
      in if s1 = [] \<or> \<not> is_digit (hd s1) then Decode_error
         else
           let integer = (if hd s1 = CHR ''0'' then ''0'' else takeWhile is_digit s1);
               s2 = drop (length integer) s1;
               frac = (case s2 of
                         p # d # r \<Rightarrow>
                           if p = CHR ''.'' \<and> is_digit d then p # takeWhile is_digit (d # r)
                           else []
                       | _ \<Rightarrow> []);
               s3 = drop (length frac) s2;
               exp = (case s3 of
                        e # r \<Rightarrow>
                          if e = CHR ''e'' \<or> e = CHR ''E'' then
                            let sign = (case r of
                                          g # r' \<Rightarrow> if g = CHR ''-'' \<or> g = CHR ''+'' then [g] else []
                                        | [] \<Rightarrow> []);
                                ds = takeWhile is_digit (drop (length sign) r)
                            in if ds = [] then [] else e # sign @ ds
                          else []
                      | [] \<Rightarrow> []);
               s4 = drop (length exp) s3
           in if frac = [] \<and> exp = [] then
                if 0 < max_digits \<and> max_digits < length integer then Raised ValueError
                else
                  Scanned (JInt (if neg then - digits_value integer else digits_value integer))
                    s4
              else Scanned (JFloat ((if neg then ''-'' else []) @ integer @ frac @ exp)) s4)"

definition scan_literal :: "nat \<Rightarrow> string \<Rightarrow> scanned" where
  "scan_literal max_digits s =
     (if take 4 s = ''null'' then Scanned JNull (drop 4 s)
      else if take 4 s = ''true'' then Scanned (JBool True) (drop 4 s)
      else if take 5 s = ''false'' then Scanned (JBool False) (drop 5 s)
      else if take 3 s = ''NaN'' then Scanned (JFloat ''NaN'') (drop 3 s)
      else if take 8 s = ''Infinity'' then Scanned (JFloat ''Infinity'') (drop 8 s)
      else if take 9 s = ''-Infinity'' then Scanned (JFloat ''-Infinity'') (drop 9 s)
      else match_number max_digits s)"

text \<open>
  The scanner of \<open>json.decoder\<close>: \<open>scan_once\<close> reads one value, \<open>parse_pairs\<close> is the loop
  of an object from the position of a key, \<open>parse_items\<close> the loop of an array from the
  position of an item. \<open>depth\<close> is the number of objects and arrays that may still be
  entered, one inside the other, before \<open>RecursionError\<close>. The first argument bounds the
  number of calls; \<open>json_loads\<close> gives one more than twice the length of the text, which is
  never used up.
\<close>

fun scan_once :: "nat \<Rightarrow> nat \<Rightarrow> nat \<Rightarrow> string \<Rightarrow> scanned"
  and parse_pairs :: "nat \<Rightarrow> nat \<Rightarrow> nat \<Rightarrow> (nat list \<times> json) list \<Rightarrow> string \<Rightarrow> scanned"
  and parse_items :: "nat \<Rightarrow> nat \<Rightarrow> nat \<Rightarrow> json list \<Rightarrow> string \<Rightarrow> scanned" where
  "scan_once 0 depth max_digits s = Out_of_fuel"
| "scan_once (Suc n) depth max_digits [] = Decode_error"
| "scan_once (Suc n) depth max_digits (c # s) =
     (if c = CHR 0x22 then
        (case scanstring s of None \<Rightarrow> Decode_error | Some (chars, rest) \<Rightarrow> Scanned (JStr chars) rest)
      else if c = CHR ''{'' then
        if depth = 0 then Raised RecursionError
        else
          (case skip_whitespace s of
             [] \<Rightarrow> Decode_error
           | d # rest \<Rightarrow>
               if d = CHR ''}'' then Scanned (JObj []) rest
               else parse_pairs n (depth - 1) max_digits [] (d # rest))
      else if c = CHR ''['' then
        if depth = 0 then Raised RecursionError
        else
          (case skip_whitespace s of
             [] \<Rightarrow> Decode_error
           | d # rest \<Rightarrow>
               if d = CHR '']'' then Scanned (JArr []) rest
               else parse_items n (depth - 1) max_digits [] (d # rest))
      else scan_literal max_digits (c # s))"
| "parse_pairs 0 depth max_digits pairs s = Out_of_fuel"
| "parse_pairs (Suc n) depth max_digits pairs [] = Decode_error"
| "parse_pairs (Suc n) depth max_digits pairs (c # s) =
     (if c \<noteq> CHR 0x22 then Decode_error
      else
        (case scanstring s of
           None \<Rightarrow> Decode_error
         | Some (key, s1) \<Rightarrow>
             (case skip_whitespace s1 of
                [] \<Rightarrow> Decode_error
              | d # s2 \<Rightarrow>
                  if d \<noteq> CHR '':'' then Decode_error
                  else
                    (case scan_once n depth max_digits (skip_whitespace s2) of
                       Scanned v s3 \<Rightarrow>
                         (case skip_whitespace s3 of
                            [] \<Rightarrow> Decode_error
                          | e # s4 \<Rightarrow>
                              if e = CHR ''}'' then
                                Scanned (JObj (AList.update key v pairs)) s4
                              else if e = CHR '','' then
                                parse_pairs n depth max_digits (AList.update key v pairs)
                                  (skip_whitespace s4)
                              else Decode_error)
                     | failure \<Rightarrow> failure))))"
| "parse_items 0 depth max_digits items s = Out_of_fuel"
| "parse_items (Suc n) depth max_digits items s =
     (case scan_once n depth max_digits s of
        Scanned v s1 \<Rightarrow>
          (case skip_whitespace s1 of
             [] \<Rightarrow> Decode_error
           | e # s2 \<Rightarrow>
               if e = CHR '']'' then Scanned (JArr (items @ [v])) s2
               else if e = CHR '','' then
                 parse_items n depth max_digits (items @ [v]) (skip_whitespace s2)
               else Decode_error)
      | failure \<Rightarrow> failure)"

datatype decoded = Decoded json | JSONDecodeError | Uncaught py_error

definition json_loads :: "interpreter \<Rightarrow> string \<Rightarrow> decoded" where
  \<comment> \<open>\<open>json.loads\<close> of a text: the value, \<open>JSONDecodeError\<close>, or another error\<close>
  "json_loads I s =
     (case scan_once (2 * length s + 1) (recursion_limit I) (int_max_str_digits I)
             (skip_whitespace s) of
        Scanned v rest \<Rightarrow> if skip_whitespace rest = [] then Decoded v else JSONDecodeError
      | Raised e \<Rightarrow> Uncaught e
      | _ \<Rightarrow> JSONDecodeError)"

definition load_accounts :: "interpreter \<Rightarrow> bytes option \<Rightarrow> py_error + json \<times> message list" where
  \<comment> \<open>from the content of the file (\<open>None\<close>: no file) to the value returned and the
      warnings, or to the error that \<open>except json.JSONDecodeError\<close> does not catch\<close>
  "load_accounts I file =
     (case file of
        None \<Rightarrow> Inr (JObj [], [])
      | Some content \<Rightarrow>
          (case codec I content of
             None \<Rightarrow> Inl UnicodeDecodeError
           | Some chars \<Rightarrow>
               (case json_loads I chars of
                  Decoded v \<Rightarrow> Inr (v, [])
                | JSONDecodeError \<Rightarrow>
                    Inr (JObj [],
                         [Warning (''Warning: accounts.json is corrupted or empty. ''
                                   @ ''Starting with no accounts.'')])
                | Uncaught e \<Rightarrow> Inl e)))"



definition code_points :: "string \<Rightarrow> nat list" where
  "code_points s = map of_char s"

definition json_of_account :: "account \<Rightarrow> json" where
  "json_of_account a =
     JObj [(code_points ''password_hash'', JStr (code_points (password_hash a))),
           (code_points ''my_list'', JArr (map (\<lambda>x. JStr (code_points x)) (my_list a)))]"

definition json_of_store :: "store \<Rightarrow> json" where
  \<comment> \<open>a store as the value it is in Python: a dict of dicts\<close>
  "json_of_store accs = JObj (map (\<lambda>(k, a). (code_points k, json_of_account a)) accs)"



section \<open>Registration\<close>

definition register_account_page :: "(bytes \<Rightarrow> string) \<Rightarrow> state \<Rightarrow> string \<Rightarrow> string \<Rightarrow> bool \<Rightarrow> result" where
  \<comment> \<open>the two text inputs as typed, and whether the form was submitted\<close>
  "register_account_page sha256_hexdigest st username_input password_input submitted =
     (let username = strip username_input;
          password = strip password_input
      in if submitted then
           if map_of (accounts st) username \<noteq> None then
             (st, [Error ''Username already exists. Please choose a different one.''], Continue)
           else if username = [] then
             (st, [Error ''Username cannot be empty.''], Continue)
           else if length password < 6 then
             (st, [Error ''Password must be at least 6 characters long.''], Continue)
           else if \<not> re_search is_lower password then
             (st, [Error ''Password must contain at least one lowercase letter.''], Continue)
           else if \<not> re_search is_upper password then
             (st, [Error ''Password must contain at least one uppercase letter.''], Continue)
           else if \<not> re_search is_digit password then
             (st, [Error ''Password must contain at least one digit.''], Continue)
           else if \<not> re_search is_special password then
             (st, [Error ''Password must contain at least one special character.''], Continue)
           else
             let hashed_password = hash_password sha256_hexdigest password;
                 accs = AList.update username
                          \<lparr>password_hash = hashed_password, my_list = []\<rparr> (accounts st);
                 st1 = st\<lparr>accounts := accs\<rparr>;
                 st2 = save_accounts (accounts st1) st1
             in (st2\<lparr>page := Login\<rparr>,
                 [Success (''Account '' @ [CHR 0x27] @ username @ [CHR 0x27]
                           @ '' created successfully!'')],
                 Rerun)
         else (st, [], Continue))"

section \<open>Login\<close>

definition login_account_page :: "(bytes \<Rightarrow> string) \<Rightarrow> state \<Rightarrow> string \<Rightarrow> string \<Rightarrow> bool \<Rightarrow> result" where
  "login_account_page sha256_hexdigest st username_input password_input submitted =
     (let username = strip username_input;
          password = strip password_input
      in if submitted then
           case map_of (accounts st) username of
             None \<Rightarrow> (st, [Error ''Invalid username or password.''], Continue)
           | Some user_data \<Rightarrow>
               let stored_password_hash = password_hash user_data;
                   entered_password_hash = hash_password sha256_hexdigest password
               in if stored_password_hash = entered_password_hash then
                    (st\<lparr>logged_in_user := Some username, page := List_management\<rparr>,
                     [Success (''Welcome, '' @ username
                               @ ''! You have successfully logged in.'')],
                     Rerun)
                  else (st, [Error ''Invalid username or password.''], Continue)
         else (st, [], Continue))"

section \<open>List management\<close>

definition set_my_list :: "string \<Rightarrow> string list \<Rightarrow> store \<Rightarrow> store" where
  \<comment> \<open>the list of the account under \<open>username\<close> is mutated in place\<close>
  "set_my_list username xs accs = AList.map_entry username (\<lambda>a. a\<lparr>my_list := xs\<rparr>) accs"

definition store_my_list :: "string \<Rightarrow> string list \<Rightarrow> state \<Rightarrow> state" where
  \<comment> \<open>the mutation, \<open>st.session_state.accounts = accounts\<close> and \<open>save_accounts\<close>\<close>
  "store_my_list username xs st =
     (let st1 = st\<lparr>accounts := set_my_list username xs (accounts st)\<rparr>
      in save_accounts (accounts st1) st1)"

fun first_checked :: "(nat \<Rightarrow> bool) \<Rightarrow> string list \<Rightarrow> nat \<Rightarrow> string list \<Rightarrow> string option" where
  \<comment> \<open>the loop of lines 144 to 167 over \<open>enumerate(my_list_current)\<close> from index \<open>idx\<close>:
      the item at which it removes and reruns, if there is one\<close>
  "first_checked checkbox whole idx [] = None"
| "first_checked checkbox whole idx (item # items) =
     (if checkbox idx \<and> item \<in> set whole then Some item
      else first_checked checkbox whole (Suc idx) items)"

definition remove_section :: "string \<Rightarrow> string list \<Rightarrow> (nat \<Rightarrow> bool) \<Rightarrow> state \<Rightarrow> result" where
  "remove_section username my_list_current checkbox st =
     (if my_list_current \<noteq> [] then
        case first_checked checkbox my_list_current 0 my_list_current of
          Some item \<Rightarrow>
            (store_my_list username (remove1 item my_list_current) st,
             [Info ([CHR 0x27] @ item @ [CHR 0x27] @ '' is getting deleted...''),
              Info (''DONE! '' @ [CHR 0x27] @ item @ [CHR 0x27] @ '' is deleted!'')],
             Rerun)
        | None \<Rightarrow> (st, [], Continue)
      else (st, [Info ''Your list is empty. Add some items!''], Continue))"

definition add_section :: "string \<Rightarrow> string list \<Rightarrow> string \<Rightarrow> bool \<Rightarrow> state \<Rightarrow> result" where
  "add_section username my_list_current add_new_item_input add_item_button st =
     (let new_item = strip add_new_item_input
      in if add_item_button then
           if new_item \<noteq> [] then
             if new_item \<in> set my_list_current then
               (st, [Warning ([CHR 0x27] @ new_item @ [CHR 0x27]
                              @ '' is already in your list.'')], Continue)
             else
               (store_my_list username (my_list_current @ [new_item]) st,
                [Success ([CHR 0x27] @ new_item @ [CHR 0x27] @ '' added to your list!'')],
                Rerun)
           else (st, [Warning ''Item cannot be empty.''], Continue)
         else (st, [], Continue))"

definition clear_section :: "string \<Rightarrow> string list \<Rightarrow> bool \<Rightarrow> state \<Rightarrow> result" where
  "clear_section username my_list_current clear_list_button st =
     (if clear_list_button then
        if my_list_current \<noteq> [] then
          (store_my_list username [] st, [Success ''Your list has been cleared!''], Rerun)
        else (st, [Info ''Your list is already empty.''], Continue)
      else (st, [], Continue))"

definition logout_section :: "bool \<Rightarrow> state \<Rightarrow> result" where
  "logout_section logout_button st =
     (if logout_button then (st\<lparr>logged_in_user := None, page := Home\<rparr>, [], Rerun)
      else (st, [], Continue))"

definition and_then :: "result \<Rightarrow> (state \<Rightarrow> result) \<Rightarrow> result" where
  \<comment> \<open>the rest of the script runs unless \<open>st.rerun()\<close> has stopped it\<close>
  "and_then r f =
     (case r of
        (st, ms, Rerun) \<Rightarrow> (st, ms, Rerun)
      | (st, ms, Continue) \<Rightarrow> (case f st of (st', ms', fl) \<Rightarrow> (st', ms @ ms', fl)))"

record list_widgets =
  checkbox :: "nat \<Rightarrow> bool"
  add_new_item_input :: string
  add_item_button :: bool
  clear_list_button :: bool
  logout_button :: bool

definition manage_user_list_page :: "state \<Rightarrow> list_widgets \<Rightarrow> py_error + result" where
  "manage_user_list_page st w =
     (case logged_in_user st of
        None \<Rightarrow> Inl KeyError
      | Some username \<Rightarrow>
          (case map_of (accounts st) username of
             None \<Rightarrow> Inl KeyError
           | Some user_data \<Rightarrow>
               let my_list_current = my_list user_data
               in Inr (and_then (and_then (and_then
                         (remove_section username my_list_current (checkbox w) st)
                         (add_section username my_list_current (add_new_item_input w)
                            (add_item_button w)))
                         (clear_section username my_list_current (clear_list_button w)))
                         (logout_section (logout_button w)))))"

section \<open>The script\<close>

record widgets =
  home_register :: bool
  home_login :: bool
  register_username :: string
  register_password :: string
  register_submitted :: bool
  reg_back :: bool
  login_username :: string
  login_password :: string
  login_submitted :: bool
  login_back :: bool
  list_page :: list_widgets

definition truthy :: "string option \<Rightarrow> bool" where
  \<comment> \<open>\<open>None\<close> and the empty string are false\<close>
  "truthy u = (case u of None \<Rightarrow> False | Some name \<Rightarrow> name \<noteq> [])"

definition back_button :: "bool \<Rightarrow> state \<Rightarrow> result" where
  "back_button pressed st =
     (if pressed then (st\<lparr>page := Home\<rparr>, [], Rerun) else (st, [], Continue))"

definition main_app :: "(bytes \<Rightarrow> string) \<Rightarrow> state \<Rightarrow> widgets \<Rightarrow> py_error + result" where
  \<comment> \<open>one run of the script on an initialised session\<close>
  "main_app sha256_hexdigest st w =
     (if truthy (logged_in_user st) then manage_user_list_page st (list_page w)
      else if page st = Home then
        Inr (if home_register w then (st\<lparr>page := Register\<rparr>, [], Rerun)
             else if home_login w then (st\<lparr>page := Login\<rparr>, [], Rerun)
             else (st, [], Continue))
      else if page st = Register then
        Inr (and_then
               (register_account_page sha256_hexdigest st (register_username w)
                  (register_password w) (register_submitted w))
               (back_button (reg_back w)))
      else if page st = Login then
        Inr (and_then
               (login_account_page sha256_hexdigest st (login_username w)
                  (login_password w) (login_submitted w))
               (back_button (login_back w)))
      else Inr (st\<lparr>page := Home\<rparr>, [], Rerun))"

inductive step :: "(bytes \<Rightarrow> string) \<Rightarrow> state \<Rightarrow> state \<Rightarrow> bool" for sha256_hexdigest where
  register_step:
    "register_account_page sha256_hexdigest st u p b = (st', ms, fl) \<Longrightarrow>
     step sha256_hexdigest st st'"
| login_step:
    "login_account_page sha256_hexdigest st u p b = (st', ms, fl) \<Longrightarrow>
     step sha256_hexdigest st st'"
| list_step:
    "manage_user_list_page st lw = Inr (st', ms, fl) \<Longrightarrow> step sha256_hexdigest st st'"
| script_step:
    "main_app sha256_hexdigest st w = Inr (st', ms, fl) \<Longrightarrow> step sha256_hexdigest st st'"

inductive reachable :: "(bytes \<Rightarrow> string) \<Rightarrow> state \<Rightarrow> state \<Rightarrow> bool" for sha256_hexdigest and st0 where
  reachable_start: "reachable sha256_hexdigest st0 st0"
| reachable_step:
    "reachable sha256_hexdigest st0 st \<Longrightarrow> step sha256_hexdigest st st' \<Longrightarrow>
     reachable sha256_hexdigest st0 st'"

definition no_duplicates :: "store \<Rightarrow> bool" where
  "no_duplicates accs = list_all (\<lambda>(u, a). distinct (my_list a)) accs"

section \<open>The file and the store\<close>

text \<open>
  What \<open>save_accounts\<close> writes is read back by \<open>load_accounts\<close> on an interpreter whose
  codec decodes ASCII bytes to the same characters (UTF-8, Latin-1 and ASCII all do). The
  store of a session and the file are in step when reading the file gives the store, as
  it does when the session starts: its store is what \<open>load_accounts\<close> returned.
\<close>

definition is_ascii :: "string \<Rightarrow> bool" where
  "is_ascii s = list_all (\<lambda>b. (of_char b :: nat) < 128) s"

definition ascii_compatible :: "(bytes \<Rightarrow> string option) \<Rightarrow> bool" where
  "ascii_compatible c = (\<forall>bs. is_ascii bs \<longrightarrow> c bs = Some bs)"



definition saved :: "state \<Rightarrow> state \<Rightarrow> bool" where
  \<comment> \<open>from \<open>st\<close> to \<open>st'\<close> the store and the file are untouched, or the store keeps its keys
      or gains a new one at the end and the file is the dump of the new store\<close>
  "saved st st' =
     ((accounts st' = accounts st \<and> accounts_file st' = accounts_file st)
      \<or> (map fst (accounts st') = map fst (accounts st)
          \<or> (\<exists>k a. map_of (accounts st) k = None \<and> accounts st' = accounts st @ [(k, a)]))
        \<and> accounts_file st' = Some (json_dump (accounts st')))"

definition reads :: "scanned \<Rightarrow> json \<Rightarrow> string \<Rightarrow> bool" where
  \<comment> \<open>a result of the scanner that is the value \<open>v\<close> and the remaining text \<open>rest\<close> unless
      the bound on the calls was too small\<close>
  "reads r v rest = (r = Out_of_fuel \<or> r = Scanned v rest)"

definition account_pair :: "string \<times> account \<Rightarrow> nat list \<times> json" where
  \<comment> \<open>an item of the store as the pair of \<open>json_of_store\<close>\<close>
  "account_pair = (\<lambda>(k, a). (code_points k, json_of_account a))"

section \<open>The registration rules as the specification words them\<close>

datatype rule =
  Username_not_taken
| Username_not_empty
| Password_length
| Password_lowercase
| Password_uppercase
| Password_digit
| Password_special

definition between :: "char \<Rightarrow> char \<Rightarrow> char \<Rightarrow> bool" where
  "between lo hi c = ((of_char lo :: nat) \<le> of_char c \<and> (of_char c :: nat) \<le> of_char hi)"

definition satisfies :: "store \<Rightarrow> string \<Rightarrow> string \<Rightarrow> rule \<Rightarrow> bool" where
  "satisfies accs username password r =
     (case r of
        Username_not_taken \<Rightarrow> username \<notin> fst ` set accs
      | Username_not_empty \<Rightarrow> username \<noteq> []
      | Password_length \<Rightarrow> 6 \<le> length password
      | Password_lowercase \<Rightarrow> (\<exists>c \<in> set password. between CHR ''a'' CHR ''z'' c)
      | Password_uppercase \<Rightarrow> (\<exists>c \<in> set password. between CHR ''A'' CHR ''Z'' c)
      | Password_digit \<Rightarrow> (\<exists>c \<in> set password. between CHR ''0'' CHR ''9'' c)
      | Password_special \<Rightarrow> (\<exists>c \<in> set password. c \<in> set special_characters))"

definition rules_in_order :: "rule list" where
  "rules_in_order =
     [Username_not_taken, Username_not_empty, Password_length, Password_lowercase,
      Password_uppercase, Password_digit, Password_special]"

definition first_violation :: "store \<Rightarrow> string \<Rightarrow> string \<Rightarrow> rule option" where
  "first_violation accs username password =
     find (\<lambda>r. \<not> satisfies accs username password r) rules_in_order"

definition rule_message :: "rule \<Rightarrow> string" where
  "rule_message r =
     (case r of
        Username_not_taken \<Rightarrow> ''Username already exists. Please choose a different one.''
      | Username_not_empty \<Rightarrow> ''Username cannot be empty.''
      | Password_length \<Rightarrow> ''Password must be at least 6 characters long.''
      | Password_lowercase \<Rightarrow> ''Password must contain at least one lowercase letter.''
      | Password_uppercase \<Rightarrow> ''Password must contain at least one uppercase letter.''
      | Password_digit \<Rightarrow> ''Password must contain at least one digit.''
      | Password_special \<Rightarrow> ''Password must contain at least one special character.'')"

definition new_account :: "(bytes \<Rightarrow> string) \<Rightarrow> string \<Rightarrow> account" where
  "new_account sha256_hexdigest password =
     \<lparr>password_hash = hash_password sha256_hexdigest password, my_list = []\<rparr>"

section \<open>Auxiliary facts\<close>

lemma rstrip_keeps_head:
  assumes "t \<noteq> []" "\<not> P (hd t)"
  shows "rev (dropWhile P (rev t)) \<noteq> [] \<and> hd (rev (dropWhile P (rev t))) = hd t"
  by (metis assms(1,2) dropWhile_eq_Nil_conv dropWhile_last hd_rev
    last_in_set rev.simps(1) rev_rev_ident)

lemma lstrip_rstrip_lstrip: "lstrip (rstrip (lstrip s)) = rstrip (lstrip s)"
proof (cases "lstrip s = []")
  case True
  show ?thesis unfolding True by (simp add: rstrip_def lstrip_def)
next
  case False
  then have "\<not> isspace (hd (lstrip s))"
    unfolding lstrip_def by (simp add: hd_dropWhile)
  with False have "rstrip (lstrip s) \<noteq> [] \<and> hd (rstrip (lstrip s)) = hd (lstrip s)"
    unfolding rstrip_def by (rule rstrip_keeps_head)
  with \<open>\<not> isspace (hd (lstrip s))\<close> show ?thesis
    unfolding lstrip_def by (cases "rstrip (dropWhile isspace s)") auto
qed

lemma strip_idem: "strip (strip s) = strip s"
  by (simp add: strip_def lstrip_rstrip_lstrip) (simp add: rstrip_def)

lemma update_new_key: "map_of al k = None \<Longrightarrow> AList.update k v al = al @ [(k, v)]"
  by (induction al) auto

lemma re_search_between:
  "re_search is_lower s = (\<exists>c \<in> set s. between CHR ''a'' CHR ''z'' c)"
  "re_search is_upper s = (\<exists>c \<in> set s. between CHR ''A'' CHR ''Z'' c)"
  "re_search is_digit s = (\<exists>c \<in> set s. between CHR ''0'' CHR ''9'' c)"
  "re_search is_special s = (\<exists>c \<in> set s. c \<in> set special_characters)"
  by (simp_all add: re_search_def list_ex_iff between_def is_lower_def is_upper_def
      is_digit_def is_special_def Let_def)

lemma first_violation_cases:
  "first_violation accs u p =
     (if map_of accs u \<noteq> None then Some Username_not_taken
      else if u = [] then Some Username_not_empty
      else if length p < 6 then Some Password_length
      else if \<not> re_search is_lower p then Some Password_lowercase
      else if \<not> re_search is_upper p then Some Password_uppercase
      else if \<not> re_search is_digit p then Some Password_digit
      else if \<not> re_search is_special p then Some Password_special
      else None)"
  unfolding re_search_between
  by (simp add: first_violation_def rules_in_order_def satisfies_def map_of_eq_None_iff
      not_le)

lemma register_account_page_cases:
  "register_account_page H st u_in p_in True =
     (case first_violation (accounts st) (strip u_in) (strip p_in) of
        Some r \<Rightarrow> (st, [Error (rule_message r)], Continue)
      | None \<Rightarrow>
          (let accs = accounts st @ [(strip u_in, new_account H (strip p_in))]
           in (st\<lparr>accounts := accs, accounts_file := Some (json_dump accs), page := Login\<rparr>,
               [Success (''Account '' @ [CHR 0x27] @ strip u_in @ [CHR 0x27]
                         @ '' created successfully!'')],
               Rerun)))"
  unfolding first_violation_cases
  by (simp add: register_account_page_def Let_def rule_message_def update_new_key
      new_account_def save_accounts_def)


section \<open>Registration: properties\<close>

text \<open>
  Claim C2. With \<open>username\<close> and \<open>password\<close> the two stripped inputs, a submitted
  registration checks the seven rules in the order of \<open>rules_in_order\<close> (username not in
  the store, username not empty, password of length at least 6, a lowercase letter, an
  uppercase letter, a digit, a special character): \<open>first_violation\<close> is the first rule of
  that list that does not hold. When there is one, the page reports the message of that
  rule and nothing else, and returns the state it was given: the accounts, the file, the
  page and the logged-in user are unchanged. When there is none, the registration goes
  through.
\<close>

theorem register_validation_order:
  "(first_violation (accounts st) (strip u_in) (strip p_in) = Some r \<longrightarrow>
      register_account_page H st u_in p_in True = (st, [Error (rule_message r)], Continue))
   \<and> (first_violation (accounts st) (strip u_in) (strip p_in) = None \<longrightarrow>
      snd (snd (register_account_page H st u_in p_in True)) = Rerun)"
  by (simp add: register_account_page_cases Let_def)

text \<open>
  Claim C3. When no rule is violated, registration appends one entry to the store, under
  the stripped username, whose \<open>password_hash\<close> is \<open>hash_password\<close> of the stripped
  password and whose \<open>my_list\<close> is empty; the username was not a key before, every other
  key keeps its entry, the file holds the dump of the whole new store, and the page is
  \<open>login\<close>.
\<close>

theorem register_success:
  assumes "first_violation (accounts st) (strip u_in) (strip p_in) = None"
    and "register_account_page H st u_in p_in True = (st', ms, fl)"
  shows "accounts st' = accounts st @ [(strip u_in,
             \<lparr>password_hash = hash_password H (strip p_in), my_list = []\<rparr>)]
     \<and> map_of (accounts st) (strip u_in) = None
     \<and> map_of (accounts st') (strip u_in) =
         Some \<lparr>password_hash = hash_password H (strip p_in), my_list = []\<rparr>
     \<and> (\<forall>v. v \<noteq> strip u_in \<longrightarrow> map_of (accounts st') v = map_of (accounts st) v)
     \<and> accounts_file st' = Some (json_dump (accounts st'))
     \<and> page st' = Login \<and> logged_in_user st' = logged_in_user st \<and> fl = Rerun"
proof -
  have none: "map_of (accounts st) (strip u_in) = None"
    using assms(1) by (simp add: first_violation_cases split: if_splits)
  have st': "st' = st\<lparr>accounts := accounts st @ [(strip u_in, new_account H (strip p_in))],
        accounts_file := Some (json_dump (accounts st @ [(strip u_in, new_account H (strip p_in))])),
        page := Login\<rparr>" and fl: "fl = Rerun"
    using assms by (simp_all add: register_account_page_cases Let_def)
  show ?thesis
    using none fl by (auto simp add: st' new_account_def map_add_def split: option.splits)
qed

text \<open>
  Claim C10. Login strips both inputs before the lookup and before hashing: a login on
  \<open>(u, p)\<close> is the login on \<open>(strip u, strip p)\<close>; it succeeds exactly when the stripped
  username is a key whose stored hash is the hash of the stripped password; and after a
  successful registration of \<open>(u0, p0)\<close>, every input pair that strips to the same
  username and password logs in, whatever whitespace surrounds it.
\<close>

theorem login_strips_inputs:
  "login_account_page H st u p b = login_account_page H st (strip u) (strip p) b
   \<and> (snd (snd (login_account_page H st u p True)) = Rerun \<longleftrightarrow>
        (\<exists>a. map_of (accounts st) (strip u) = Some a
             \<and> password_hash a = hash_password H (strip p)))
   \<and> (\<forall>st0 u0 p0 ms. register_account_page H st0 u0 p0 True = (st, ms, Rerun)
         \<and> strip u = strip u0 \<and> strip p = strip p0 \<longrightarrow>
        login_account_page H st u p True =
          (st\<lparr>logged_in_user := Some (strip u0), page := List_management\<rparr>,
           [Success (''Welcome, '' @ strip u0 @ ''! You have successfully logged in.'')],
           Rerun))"
proof (intro conjI allI impI)
  show "login_account_page H st u p b = login_account_page H st (strip u) (strip p) b"
    by (simp add: login_account_page_def strip_idem)
next
  show "snd (snd (login_account_page H st u p True)) = Rerun \<longleftrightarrow>
        (\<exists>a. map_of (accounts st) (strip u) = Some a
             \<and> password_hash a = hash_password H (strip p))"
    by (auto simp: login_account_page_def Let_def split: option.splits)
next
  fix st0 u0 p0 ms
  assume a: "register_account_page H st0 u0 p0 True = (st, ms, Rerun)
     \<and> strip u = strip u0 \<and> strip p = strip p0"
  then have "first_violation (accounts st0) (strip u0) (strip p0) = None"
    by (auto simp: register_account_page_cases split: option.splits)
  with a have "accounts st = accounts st0 @ [(strip u0, new_account H (strip p0))]"
    by (auto simp: register_account_page_cases Let_def)
  moreover have "map_of (accounts st0) (strip u0) = None"
    using \<open>first_violation _ _ _ = None\<close> by (simp add: first_violation_cases split: if_splits)
  ultimately have "map_of (accounts st) (strip u0) = Some (new_account H (strip p0))"
    by (simp add: map_add_def)
  with a show "login_account_page H st u p True =
          (st\<lparr>logged_in_user := Some (strip u0), page := List_management\<rparr>,
           [Success (''Welcome, '' @ strip u0 @ ''! You have successfully logged in.'')],
           Rerun)"
    by (simp add: login_account_page_def Let_def new_account_def)
qed


lemma first_checked_None:
  "(\<forall>i < length items. \<not> cb (idx + i)) \<Longrightarrow> first_checked cb whole idx items = None"
proof (induction items arbitrary: idx)
  case Nil
  then show ?case by simp
next
  case (Cons item items)
  from Cons.prems have "\<not> cb idx" by force
  moreover have "\<forall>i < length items. \<not> cb (Suc idx + i)"
    using Cons.prems by force
  ultimately show ?case using Cons.IH [of "Suc idx"] by simp
qed

lemma first_checked_Some:
  "i < length items \<Longrightarrow> cb (idx + i) \<Longrightarrow> (\<forall>j < i. \<not> cb (idx + j)) \<Longrightarrow>
   items ! i \<in> set whole \<Longrightarrow> first_checked cb whole idx items = Some (items ! i)"
proof (induction items arbitrary: idx i)
  case Nil
  then show ?case by simp
next
  case (Cons item items)
  show ?case
  proof (cases i)
    case 0
    with Cons.prems show ?thesis by simp
  next
    case (Suc k)
    with Cons.prems have "\<not> cb idx" by force
    moreover have "first_checked cb whole (Suc idx) items = Some (items ! k)"
    proof (rule Cons.IH)
      show "k < length items" using Cons.prems Suc by simp
      show "cb (Suc idx + k)" using Cons.prems Suc by simp
      show "\<forall>j < k. \<not> cb (Suc idx + j)"
      proof (intro allI impI)
        fix j assume "j < k"
        then have "Suc j < i" using Suc by simp
        with Cons.prems(3) have "\<not> cb (idx + Suc j)" by blast
        then show "\<not> cb (Suc idx + j)" by simp
      qed
      show "items ! k \<in> set whole" using Cons.prems Suc by simp
    qed
    ultimately show ?thesis using Suc by simp
  qed
qed

lemma map_of_set_my_list:
  "map_of (set_my_list u xs accs) v =
     (if v = u then map_option (\<lambda>a. a\<lparr>my_list := xs\<rparr>) (map_of accs u) else map_of accs v)"
  by (simp add: set_my_list_def map_of_map_entry split: option.split)

lemma store_my_list_eq:
  "store_my_list u xs st =
     st\<lparr>accounts := set_my_list u xs (accounts st),
        accounts_file := Some (json_dump (set_my_list u xs (accounts st)))\<rparr>"
  by (simp add: store_my_list_def save_accounts_def Let_def)

section \<open>List management: properties\<close>

text \<open>
  Claim C4. For a logged-in user whose run of the page has no checked checkbox and has the
  add button pressed: the stripped input is rejected with a warning and the state is
  unchanged when it is empty or already in the list (equality of strings); otherwise it
  is appended at the end of the user's list, the file receives the dump of the new store,
  and a success message is reported.
\<close>

theorem add_item_correct:
  assumes "logged_in_user st = Some username"
    and "map_of (accounts st) username = Some user_data"
    and "\<forall>i < length (my_list user_data). \<not> checkbox w i"
    and "add_item_button w" and "\<not> clear_list_button w" and "\<not> logout_button w"
  shows "manage_user_list_page st w = Inr
     (let xs = my_list user_data;
          new_item = strip (add_new_item_input w);
          shown = (if xs = [] then [Info ''Your list is empty. Add some items!''] else []);
          accs = set_my_list username (xs @ [new_item]) (accounts st)
      in if new_item = [] then (st, shown @ [Warning ''Item cannot be empty.''], Continue)
         else if new_item \<in> set xs then
           (st, shown @ [Warning ([CHR 0x27] @ new_item @ [CHR 0x27]
                                  @ '' is already in your list.'')], Continue)
         else
           (st\<lparr>accounts := accs, accounts_file := Some (json_dump accs)\<rparr>,
            shown @ [Success ([CHR 0x27] @ new_item @ [CHR 0x27] @ '' added to your list!'')],
            Rerun))
   \<and> map_of (set_my_list username (my_list user_data @ [strip (add_new_item_input w)])
               (accounts st)) username =
       Some (user_data\<lparr>my_list := my_list user_data @ [strip (add_new_item_input w)]\<rparr>)"
proof -
  have "first_checked (checkbox w) (my_list user_data) 0 (my_list user_data) = None"
    using assms(3) by (intro first_checked_None) simp
  then show ?thesis
    using assms
    by (simp add: manage_user_list_page_def remove_section_def add_section_def
        clear_section_def logout_section_def and_then_def Let_def store_my_list_eq
        map_of_set_my_list)
qed

text \<open>
  Claim C5. When the checkbox of index \<open>i\<close> is the first one checked, the item \<open>x\<close> at that
  index is removed once, at its first occurrence: the list is \<open>before @ x # after\<close> with
  \<open>x\<close> not in \<open>before\<close>, and becomes \<open>before @ after\<close>. The file receives the dump of
  the new store, and every other username keeps its entry.
\<close>

theorem remove_item_correct:
  assumes "logged_in_user st = Some username"
    and "map_of (accounts st) username = Some user_data"
    and "i < length (my_list user_data)"
    and "checkbox w i" and "\<forall>j < i. \<not> checkbox w j"
  shows "\<exists>before after.
           my_list user_data = before @ (my_list user_data ! i) # after
         \<and> my_list user_data ! i \<notin> set before
         \<and> remove1 (my_list user_data ! i) (my_list user_data) = before @ after
         \<and> (let x = my_list user_data ! i;
                 accs = set_my_list username (before @ after) (accounts st)
             in manage_user_list_page st w = Inr
                  (st\<lparr>accounts := accs, accounts_file := Some (json_dump accs)\<rparr>,
                   [Info ([CHR 0x27] @ x @ [CHR 0x27] @ '' is getting deleted...''),
                    Info (''DONE! '' @ [CHR 0x27] @ x @ [CHR 0x27] @ '' is deleted!'')],
                   Rerun)
              \<and> map_of accs username = Some (user_data\<lparr>my_list := before @ after\<rparr>)
              \<and> (\<forall>v. v \<noteq> username \<longrightarrow> map_of accs v = map_of (accounts st) v))"
proof -
  let ?xs = "my_list user_data"
  let ?x = "?xs ! i"
  have mem: "?x \<in> set ?xs" using assms(3) by simp
  then obtain before after where split: "?xs = before @ ?x # after" "?x \<notin> set before"
    by (meson split_list_first)
  have rem: "remove1 ?x ?xs = before @ after"
    using split by (metis remove1.simps(2) remove1_append)
  have fc: "first_checked (checkbox w) ?xs 0 ?xs = Some ?x"
    using assms(3,4,5) mem by (intro first_checked_Some) simp_all
  have ne: "?xs \<noteq> []" using assms(3) by auto
  have page: "manage_user_list_page st w = Inr
      (store_my_list username (remove1 ?x ?xs) st,
       [Info ([CHR 0x27] @ ?x @ [CHR 0x27] @ '' is getting deleted...''),
        Info (''DONE! '' @ [CHR 0x27] @ ?x @ [CHR 0x27] @ '' is deleted!'')],
       Rerun)"
    using assms(1,2) fc ne
    by (simp add: manage_user_list_page_def remove_section_def and_then_def Let_def)
  show ?thesis
    apply (rule exI [of _ before], rule exI [of _ after])
    using split rem page assms(2)
    by (simp add: Let_def store_my_list_eq map_of_set_my_list)
qed


lemma and_then_cases:
  "and_then r f = (st', ms', fl') \<Longrightarrow>
   (r = (st', ms', Rerun) \<and> fl' = Rerun)
   \<or> (\<exists>st ms ms2. r = (st, ms, Continue) \<and> f st = (st', ms2, fl') \<and> ms' = ms @ ms2)"
  by (cases r) (auto simp: and_then_def split: flow.splits prod.splits)

lemma manage_user_list_page_effect:
  assumes "manage_user_list_page st w = Inr (st', ms, fl)"
  shows "\<exists>username user_data.
           logged_in_user st = Some username \<and> map_of (accounts st) username = Some user_data
         \<and> page st' = (if logged_in_user st' = None then Home else page st)
         \<and> (logged_in_user st' = None \<or> logged_in_user st' = logged_in_user st)
         \<and> ((accounts st' = accounts st \<and> accounts_file st' = accounts_file st)
            \<or> (\<exists>ys. (ys = [] \<or> (\<exists>x. ys = remove1 x (my_list user_data))
                      \<or> (\<exists>x. x \<notin> set (my_list user_data) \<and> ys = my_list user_data @ [x]))
                   \<and> accounts st' = set_my_list username ys (accounts st)
                   \<and> accounts_file st' = Some (json_dump (accounts st'))))"
proof -
  from assms obtain username user_data where
    u: "logged_in_user st = Some username" "map_of (accounts st) username = Some user_data"
    by (auto simp: manage_user_list_page_def split: option.splits)
  let ?xs = "my_list user_data"
  from assms u have r: "and_then (and_then (and_then
          (remove_section username ?xs (checkbox w) st)
          (add_section username ?xs (add_new_item_input w) (add_item_button w)))
          (clear_section username ?xs (clear_list_button w)))
          (logout_section (logout_button w)) = (st', ms, fl)"
    by (simp add: manage_user_list_page_def Let_def)
  have rem: "remove_section username ?xs (checkbox w) s0 = (s, m, f) \<Longrightarrow>
      (s = s0 \<and> f = Continue)
      \<or> (f = Rerun \<and> (\<exists>x. s = store_my_list username (remove1 x ?xs) s0))" for s0 s m f
    by (auto simp: remove_section_def split: if_splits option.splits)
  have add: "add_section username ?xs (add_new_item_input w) (add_item_button w) s0 = (s, m, f)
      \<Longrightarrow> (s = s0 \<and> f = Continue)
        \<or> (f = Rerun \<and> (\<exists>x. x \<notin> set ?xs \<and> s = store_my_list username (?xs @ [x]) s0))"
    for s0 s m f
    by (auto simp: add_section_def Let_def split: if_splits)
  have clr: "clear_section username ?xs (clear_list_button w) s0 = (s, m, f)
      \<Longrightarrow> (s = s0 \<and> f = Continue) \<or> (f = Rerun \<and> s = store_my_list username [] s0)"
    for s0 s m f
    by (auto simp: clear_section_def split: if_splits)
  have out: "logout_section (logout_button w) s0 = (s, m, f)
      \<Longrightarrow> s = s0 \<or> s = s0\<lparr>logged_in_user := None, page := Home\<rparr>" for s0 s m f
    by (auto simp: logout_section_def split: if_splits)
  obtain s1 m1 f1 where R1: "remove_section username ?xs (checkbox w) st = (s1, m1, f1)"
    by (metis prod_cases3)
  obtain s2 m2 f2 where R2:
    "add_section username ?xs (add_new_item_input w) (add_item_button w) st = (s2, m2, f2)"
    by (metis prod_cases3)
  obtain s3 m3 f3 where R3:
    "clear_section username ?xs (clear_list_button w) st = (s3, m3, f3)"
    by (metis prod_cases3)
  obtain s4 m4 f4 where R4: "logout_section (logout_button w) st = (s4, m4, f4)"
    by (metis prod_cases3)
  have "st' = st \<or> st' = st\<lparr>logged_in_user := None, page := Home\<rparr>
     \<or> (\<exists>ys. (ys = [] \<or> (\<exists>x. ys = remove1 x ?xs) \<or> (\<exists>x. x \<notin> set ?xs \<and> ys = ?xs @ [x]))
            \<and> st' = store_my_list username ys st)"
  proof (cases f1)
    case Rerun
    with r R1 have "st' = s1" by (simp add: and_then_def)
    with rem [OF R1] Rerun show ?thesis by auto
  next
    case c1: Continue
    with rem [OF R1] have s1: "s1 = st" by auto
    show ?thesis
    proof (cases f2)
      case Rerun
      with r R1 R2 c1 s1 have "st' = s2" by (simp add: and_then_def)
      with add [OF R2] Rerun show ?thesis by auto
    next
      case c2: Continue
      with add [OF R2] have s2: "s2 = st" by auto
      show ?thesis
      proof (cases f3)
        case Rerun
        with r R1 R2 R3 c1 s1 c2 s2 have "st' = s3" by (simp add: and_then_def)
        with clr [OF R3] Rerun show ?thesis by auto
      next
        case c3: Continue
        with clr [OF R3] have s3: "s3 = st" by auto
        from r R1 R2 R3 R4 c1 s1 c2 s2 c3 s3 have "st' = s4" by (simp add: and_then_def)
        with out [OF R4] show ?thesis by auto
      qed
    qed
  qed
  then show ?thesis
    using u by (auto simp: store_my_list_eq)
qed

lemma no_duplicates_set_my_list:
  "distinct xs \<Longrightarrow> no_duplicates accs \<Longrightarrow> no_duplicates (set_my_list u xs accs)"
  by (induction accs) (auto simp: no_duplicates_def set_my_list_def)

lemma no_duplicates_lookup:
  "no_duplicates accs \<Longrightarrow> map_of accs u = Some a \<Longrightarrow> distinct (my_list a)"
  by (auto simp: no_duplicates_def list_all_iff dest!: map_of_SomeD)

lemma register_account_page_accounts:
  assumes "register_account_page H st u p b = (st', ms, fl)"
  shows "accounts st' = accounts st \<or> accounts st' = accounts st @ [(strip u, new_account H (strip p))]"
proof (cases b)
  case True
  with assms show ?thesis
    by (auto simp: register_account_page_cases Let_def split: option.splits)
next
  case False
  with assms show ?thesis by (simp add: register_account_page_def)
qed

lemma login_account_page_accounts:
  "login_account_page H st u p b = (st', ms, fl) \<Longrightarrow> accounts st' = accounts st"
  by (auto simp: login_account_page_def Let_def split: option.splits if_splits)

lemma and_then_back_button_accounts:
  "and_then r (back_button b) = (st', ms, fl) \<Longrightarrow> accounts st' = accounts (fst r)"
  by (cases r) (auto simp: and_then_def back_button_def split: flow.splits if_splits)

lemma manage_user_list_page_no_duplicates:
  assumes "manage_user_list_page st w = Inr (st', ms, fl)" and "no_duplicates (accounts st)"
  shows "no_duplicates (accounts st')"
proof -
  from manage_user_list_page_effect [OF assms(1)] obtain username user_data where
    u: "map_of (accounts st) username = Some user_data"
    and e: "accounts st' = accounts st
        \<or> (\<exists>ys. (ys = [] \<or> (\<exists>x. ys = remove1 x (my_list user_data))
                  \<or> (\<exists>x. x \<notin> set (my_list user_data) \<and> ys = my_list user_data @ [x]))
               \<and> accounts st' = set_my_list username ys (accounts st))"
    by blast
  have d: "distinct (my_list user_data)"
    using assms(2) u by (rule no_duplicates_lookup)
  from e show ?thesis
  proof
    assume "accounts st' = accounts st"
    with assms(2) show ?thesis by simp
  next
    assume "\<exists>ys. (ys = [] \<or> (\<exists>x. ys = remove1 x (my_list user_data))
                  \<or> (\<exists>x. x \<notin> set (my_list user_data) \<and> ys = my_list user_data @ [x]))
               \<and> accounts st' = set_my_list username ys (accounts st)"
    then obtain ys where ys: "ys = [] \<or> (\<exists>x. ys = remove1 x (my_list user_data))
                  \<or> (\<exists>x. x \<notin> set (my_list user_data) \<and> ys = my_list user_data @ [x])"
      and a: "accounts st' = set_my_list username ys (accounts st)" by blast
    from ys d have "distinct ys" by auto
    with a assms(2) show ?thesis by (simp add: no_duplicates_set_my_list)
  qed
qed

lemma step_no_duplicates:
  assumes "step H st st'" and "no_duplicates (accounts st)"
  shows "no_duplicates (accounts st')"
  using assms
proof (cases rule: step.cases)
  case (register_step u p b ms fl)
  from register_account_page_accounts [OF this] assms(2) show ?thesis
    by (auto simp: no_duplicates_def new_account_def)
next
  case (login_step u p b ms fl)
  from login_account_page_accounts [OF this] assms(2) show ?thesis by simp
next
  case (list_step lw ms fl)
  then show ?thesis using assms(2) by (rule manage_user_list_page_no_duplicates)
next
  case (script_step w ms fl)
  show ?thesis
  proof (cases "truthy (logged_in_user st)")
    case True
    with script_step have "manage_user_list_page st (list_page w) = Inr (st', ms, fl)"
      by (simp add: main_app_def)
    then show ?thesis using assms(2) by (rule manage_user_list_page_no_duplicates)
  next
    case False
    show ?thesis
    proof (cases "page st")
      case Home
      with False script_step have "accounts st' = accounts st"
        by (auto simp: main_app_def split: if_splits)
      with assms(2) show ?thesis by simp
    next
      case Register
      with False script_step have r: "and_then
               (register_account_page H st (register_username w)
                  (register_password w) (register_submitted w))
               (back_button (reg_back w)) = (st', ms, fl)"
        by (simp add: main_app_def)
      obtain s1 m1 f1 where p: "register_account_page H st (register_username w)
                  (register_password w) (register_submitted w) = (s1, m1, f1)"
        by (metis prod_cases3)
      from and_then_back_button_accounts [OF r] p have "accounts st' = accounts s1" by simp
      with register_account_page_accounts [OF p] assms(2) show ?thesis
        by (auto simp: no_duplicates_def new_account_def)
    next
      case Login
      with False script_step have r: "and_then
               (login_account_page H st (login_username w)
                  (login_password w) (login_submitted w))
               (back_button (login_back w)) = (st', ms, fl)"
        by (simp add: main_app_def)
      obtain s1 m1 f1 where p: "login_account_page H st (login_username w)
                  (login_password w) (login_submitted w) = (s1, m1, f1)"
        by (metis prod_cases3)
      from and_then_back_button_accounts [OF r] p have "accounts st' = accounts s1" by simp
      with login_account_page_accounts [OF p] assms(2) show ?thesis by simp
    next
      case List_management
      with False script_step have "accounts st' = accounts st"
        by (auto simp: main_app_def)
      with assms(2) show ?thesis by simp
    qed
  qed
qed

section \<open>No duplicates in a list\<close>

text \<open>
  Claim C8. A step is any run of the registration page, of the login page, of the list
  page or of the whole script, on any inputs. In every state reachable by such steps from
  a state whose store has no list with a repeated item (the empty store is one), no
  account's \<open>my_list\<close> contains a string twice.
\<close>

theorem reachable_no_duplicates:
  assumes "reachable H st0 st" and "no_duplicates (accounts st0)"
  shows "no_duplicates (accounts st)
       \<and> (\<forall>u a. map_of (accounts st) u = Some a \<longrightarrow> distinct (my_list a))"
proof -
  from assms have "no_duplicates (accounts st)"
    by (induction rule: reachable.induct) (auto intro: step_no_duplicates)
  then show ?thesis by (auto dest: no_duplicates_lookup)
qed

section \<open>The reader: auxiliary facts\<close>

declare scanstring.simps [simp del]

lemma cons_char_Some:
  "cons_char n r = Some (x, rest) \<longleftrightarrow> (\<exists>x'. r = Some (x', rest) \<and> x = n # x')"
  by (auto simp: cons_char_def split: option.splits)

lemma scanstring_Nil: "scanstring [] = None"
  by (simp add: scanstring.simps)

lemma scanstring_quote: "scanstring (CHR 0x22 # s) = Some ([], s)"
  by (subst scanstring.simps) simp

lemma scanstring_plain:
  "c \<noteq> CHR 0x22 \<Longrightarrow> c \<noteq> CHR 0x5C \<Longrightarrow>
   scanstring (c # s) =
     (if (of_char c :: nat) < 32 then None else cons_char (of_char c) (scanstring s))"
  by (subst scanstring.simps) simp

lemma scanstring_backslash_end: "scanstring [CHR 0x5C] = None"
  by (subst scanstring.simps) simp

lemma scanstring_backslash:
  "e \<noteq> CHR ''u'' \<Longrightarrow>
   scanstring (CHR 0x5C # e # s) =
     (case backslash e of None \<Rightarrow> None | Some n \<Rightarrow> cons_char n (scanstring s))"
  by (subst scanstring.simps) simp

lemma scanstring_unicode_short:
  "length s1 < 4 \<Longrightarrow> scanstring (CHR 0x5C # CHR ''u'' # s1) = None"
  by (subst scanstring.simps) (auto split: list.split)

lemma scanstring_unicode_bad:
  "decode_hex4 h3 h2 h1 h0 = None \<Longrightarrow>
   scanstring (CHR 0x5C # CHR ''u'' # h3 # h2 # h1 # h0 # s2) = None"
  by (subst scanstring.simps) simp

lemma scanstring_unicode_single:
  "decode_hex4 h3 h2 h1 h0 = Some uni \<Longrightarrow>
   \<not> (is_high_surrogate uni \<and> 6 \<le> length s2 \<and> s2 ! 0 = CHR 0x5C \<and> s2 ! 1 = CHR ''u'') \<Longrightarrow>
   scanstring (CHR 0x5C # CHR ''u'' # h3 # h2 # h1 # h0 # s2) = cons_char uni (scanstring s2)"
  by (subst scanstring.simps) (auto split: list.split)

lemma scanstring_unicode_pair:
  "decode_hex4 h3 h2 h1 h0 = Some uni \<Longrightarrow> is_high_surrogate uni \<Longrightarrow>
   scanstring (CHR 0x5C # CHR ''u'' # h3 # h2 # h1 # h0 # CHR 0x5C # CHR ''u'' # g3 # g2 # g1 # g0 # s3) =
     (case decode_hex4 g3 g2 g1 g0 of
        None \<Rightarrow> None
      | Some uni2 \<Rightarrow>
          if is_low_surrogate uni2 then cons_char (join_surrogates uni uni2) (scanstring s3)
          else cons_char uni (scanstring (CHR 0x5C # CHR ''u'' # g3 # g2 # g1 # g0 # s3)))"
  by (subst scanstring.simps) simp


lemma list_of_length_ge_4:
  "4 \<le> length s \<Longrightarrow> \<exists>a b c d t. s = a # b # c # d # t"
  by (cases s; cases "tl s"; cases "tl (tl s)"; cases "tl (tl (tl s))") auto

lemma list_of_length_ge_6:
  "6 \<le> length s \<Longrightarrow> \<exists>a b c d e f t. s = a # b # c # d # e # f # t"
proof -
  assume a: "6 \<le> length s"
  then obtain a b c d t where s: "s = a # b # c # d # t"
    using list_of_length_ge_4 [of s] by auto
  with a have "2 \<le> length t" by simp
  then obtain e f t' where "t = e # f # t'"
    by (cases t; cases "tl t") auto
  with s show ?thesis by blast
qed

lemma scanstring_step:
  assumes "scanstring (c # t) = Some (x, r)"
  shows "(c = CHR 0x22 \<and> r = t \<and> x = [])
       \<or> (\<exists>n u. suffix u t \<and> cons_char n (scanstring u) = Some (x, r))"
proof (cases "c = CHR 0x22")
  case True
  with assms show ?thesis by (simp add: scanstring_quote)
next
  case nq: False
  show ?thesis
  proof (cases "c = CHR 0x5C")
    case False
    with nq assms have "cons_char (of_char c) (scanstring t) = Some (x, r)"
      by (simp add: scanstring_plain split: if_splits)
    moreover have "suffix t t" by simp
    ultimately show ?thesis by blast
  next
    case bs: True
    show ?thesis
    proof (cases t)
      case Nil
      with bs assms show ?thesis by (simp add: scanstring_backslash_end)
    next
      case (Cons e s1)
      show ?thesis
      proof (cases "e = CHR ''u''")
        case False
        with bs assms Cons obtain n where "cons_char n (scanstring s1) = Some (x, r)"
          by (auto simp: scanstring_backslash split: option.splits)
        moreover have "suffix s1 t" using Cons by (simp add: suffix_Cons)
        ultimately show ?thesis by blast
      next
        case u: True
        have "\<not> length s1 < 4"
          using assms bs u Cons by (auto simp: scanstring_unicode_short)
        then obtain h3 h2 h1 h0 s2 where s1: "s1 = h3 # h2 # h1 # h0 # s2"
          using list_of_length_ge_4 [of s1] by auto
        from assms bs u Cons s1 obtain uni where uni: "decode_hex4 h3 h2 h1 h0 = Some uni"
          by (cases "decode_hex4 h3 h2 h1 h0") (auto simp: scanstring_unicode_bad)
        show ?thesis
        proof (cases "is_high_surrogate uni \<and> 6 \<le> length s2 \<and> s2 ! 0 = CHR 0x5C
                       \<and> s2 ! 1 = CHR ''u''")
          case False
          from scanstring_unicode_single [OF uni False] assms bs u Cons s1
          have "cons_char uni (scanstring s2) = Some (x, r)" by simp
          moreover have "suffix s2 t" using Cons s1 by (simp add: suffix_Cons)
          ultimately show ?thesis by blast
        next
          case True
          then obtain a b g3 g2 g1 g0 s3 where "s2 = a # b # g3 # g2 # g1 # g0 # s3"
            using list_of_length_ge_6 [of s2] by auto
          with True have s2: "s2 = CHR 0x5C # CHR ''u'' # g3 # g2 # g1 # g0 # s3" by simp
          from True have hi: "is_high_surrogate uni" by simp
          from scanstring_unicode_pair [OF uni hi, of g3 g2 g1 g0 s3] assms bs u Cons s1 s2
          have "cons_char (join_surrogates uni (the (decode_hex4 g3 g2 g1 g0))) (scanstring s3)
                  = Some (x, r)
              \<or> cons_char uni (scanstring s2) = Some (x, r)"
            by (auto split: option.splits if_splits)
          moreover have "suffix s3 t" "suffix s2 t"
            using Cons s1 s2 by (simp_all add: suffix_Cons)
          ultimately show ?thesis by blast
        qed
      qed
    qed
  qed
qed

lemma scanstring_suffix: "scanstring s = Some (x, r) \<Longrightarrow> suffix r s"
proof (induction s arbitrary: x r rule: length_induct)
  case (1 s)
  show ?case
  proof (cases s)
    case Nil
    with 1(2) show ?thesis by (simp add: scanstring_Nil)
  next
    case (Cons c t)
    with 1(2) have "scanstring (c # t) = Some (x, r)" by simp
    from scanstring_step [OF this] show ?thesis
    proof
      assume "c = CHR 0x22 \<and> r = t \<and> x = []"
      with Cons show ?thesis by (simp add: suffix_ConsI)
    next
      assume "\<exists>n u. suffix u t \<and> cons_char n (scanstring u) = Some (x, r)"
      then obtain n u x' where u: "suffix u t" "scanstring u = Some (x', r)"
        by (auto simp: cons_char_Some)
      with Cons have "length u < length s" by (auto dest: suffix_length_le)
      with 1(1) u(2) have "suffix r u" by blast
      with u(1) Cons show ?thesis by (auto intro: suffix_ConsI suffix_order.trans)
    qed
  qed
qed

lemma scanstring_shorter: "scanstring s = Some (x, r) \<Longrightarrow> length r < length s"
proof (cases s)
  case Nil
  then show "scanstring s = Some (x, r) \<Longrightarrow> ?thesis" by (simp add: scanstring_Nil)
next
  case (Cons c t)
  assume a: "scanstring s = Some (x, r)"
  with Cons have "scanstring (c # t) = Some (x, r)" by simp
  from scanstring_step [OF this] show ?thesis
  proof
    assume "c = CHR 0x22 \<and> r = t \<and> x = []"
    with Cons show ?thesis by simp
  next
    assume "\<exists>n u. suffix u t \<and> cons_char n (scanstring u) = Some (x, r)"
    then obtain n u x' where u: "suffix u t" "scanstring u = Some (x', r)"
      by (auto simp: cons_char_Some)
    from scanstring_suffix [OF u(2)] u(1) have "suffix r t" by (rule suffix_order.trans)
    with Cons show ?thesis by (auto dest: suffix_length_le)
  qed
qed

lemma skip_whitespace_le: "length (skip_whitespace s) \<le> length s"
  by (simp add: skip_whitespace_def length_dropWhile_le)

lemma skip_whitespace_Cons: "skip_whitespace s = d # rest \<Longrightarrow> length rest < length s"
  using skip_whitespace_le [of s] by simp

lemma takeWhile_pos: "xs \<noteq> [] \<Longrightarrow> P (hd xs) \<Longrightarrow> 0 < length (takeWhile P xs)"
  by (cases xs) auto

lemma match_number_shorter: "match_number md s = Scanned v r \<Longrightarrow> length r < length s"
  using takeWhile_pos [of s is_digit] takeWhile_pos [of "tl s" is_digit]
  by (auto simp: match_number_def Let_def split: if_splits)

lemma take_literal: "take k s = c # cs \<Longrightarrow> 0 < length s \<and> 0 < k"
  by (cases s; cases k) auto

lemma scan_literal_shorter: "scan_literal md s = Scanned v r \<Longrightarrow> length r < length s"
  by (auto simp: scan_literal_def split: if_splits dest: match_number_shorter
      dest!: take_literal)

lemma scan_literal_fuel: "scan_literal md s \<noteq> Out_of_fuel"
  by (auto simp: scan_literal_def match_number_def Let_def)


lemma scan_shorter:
  "scan_once n dp md s = Scanned v r \<Longrightarrow> length r < length s"
  "parse_pairs n dp md ps s = Scanned v r \<Longrightarrow> length r < length s"
  "parse_items n dp md its s = Scanned v r \<Longrightarrow> length r < length s"
proof (induction n dp md s and n dp md ps s and n dp md its s arbitrary: v r and v r and v r
    rule: scan_once_parse_pairs_parse_items.induct)
  case (1 dp md s)
  then show ?case by simp
next
  case (2 n dp md)
  then show ?case by simp
next
  case (3 n dp md c s)
  show ?case
  proof (cases "c = CHR 0x22")
    case True
    with 3(3) show ?thesis
      by (auto split: option.splits dest: scanstring_shorter)
  next
    case nq: False
    show ?thesis
    proof (cases "c = CHR ''{''")
      case True
      with nq 3(3) have dp0: "dp \<noteq> 0" by (auto split: if_splits)
      with nq True 3(3) obtain d rest where d: "skip_whitespace s = d # rest"
        by (auto split: list.splits)
      show ?thesis
      proof (cases "d = CHR ''}''")
        case True
        with nq \<open>c = CHR ''{''\<close> dp0 d 3(3) have "r = rest" by simp
        with skip_whitespace_Cons [OF d] show ?thesis by simp
      next
        case False
        with nq \<open>c = CHR ''{''\<close> dp0 d 3(3)
        have "parse_pairs n (dp - 1) md [] (d # rest) = Scanned v r" by simp
        from "3.IH"(1) [OF nq \<open>c = CHR ''{''\<close> dp0 d False this] skip_whitespace_Cons [OF d]
        show ?thesis by simp
      qed
    next
      case nb: False
      show ?thesis
      proof (cases "c = CHR ''[''")
        case True
        with nq nb 3(3) have dp0: "dp \<noteq> 0" by (auto split: if_splits)
        with nq nb True 3(3) obtain d rest where d: "skip_whitespace s = d # rest"
          by (auto split: list.splits)
        show ?thesis
        proof (cases "d = CHR '']''")
          case True
          with nq nb \<open>c = CHR ''[''\<close> dp0 d 3(3) have "r = rest" by simp
          with skip_whitespace_Cons [OF d] show ?thesis by simp
        next
          case False
          with nq nb \<open>c = CHR ''[''\<close> dp0 d 3(3)
          have "parse_items n (dp - 1) md [] (d # rest) = Scanned v r" by simp
          from "3.IH"(2) [OF nq nb \<open>c = CHR ''[''\<close> dp0 d False this] skip_whitespace_Cons [OF d]
          show ?thesis by simp
        qed
      next
        case False
        with nq nb 3(3) have "scan_literal md (c # s) = Scanned v r" by simp
        then show ?thesis by (rule scan_literal_shorter)
      qed
    qed
  qed
next
  case (4 dp md ps s)
  then show ?case by simp
next
  case (5 n dp md ps)
  then show ?case by simp
next
  case (6 n dp md ps c s)
  from 6(3) have q: "c = CHR 0x22" by (auto split: if_splits)
  with 6(3) obtain key s1 where k: "scanstring s = Some (key, s1)"
    by (auto split: option.splits)
  with q 6(3) obtain d s2 where d: "skip_whitespace s1 = d # s2" "d = CHR '':''"
    by (auto split: list.splits if_splits)
  with q k 6(3) obtain v' s3 where v: "scan_once n dp md (skip_whitespace s2) = Scanned v' s3"
    by (auto split: scanned.splits)
  with q k d 6(3) obtain e s4 where e: "skip_whitespace s3 = e # s4"
    by (auto split: list.splits)
  have l: "length s4 < length s"
    using scanstring_shorter [OF k] skip_whitespace_Cons [OF d(1)] skip_whitespace_Cons [OF e]
      "6.IH"(1) [OF _ k refl d(1) _ v] q d(2) skip_whitespace_le [of s2]
    by simp
  show ?case
  proof (cases "e = CHR ''}''")
    case True
    with q k d v e 6(3) have "r = s4" by simp
    with l show ?thesis by simp
  next
    case False
    with q k d v e 6(3) have c: "e = CHR '',''"
      and p: "parse_pairs n dp md (AList.update key v' ps) (skip_whitespace s4) = Scanned v r"
      by (auto split: if_splits)
    have "length r < length (skip_whitespace s4)"
      using "6.IH"(2) [OF _ k refl d(1) _ v e False c p] q d(2) by simp
    with l skip_whitespace_le [of s4] show ?thesis by simp
  qed
next
  case (7 dp md its s)
  then show ?case by simp
next
  case (8 n dp md its s)
  from 8(3) obtain v' s1 where v: "scan_once n dp md s = Scanned v' s1"
    by (auto split: scanned.splits)
  with 8(3) obtain e s2 where e: "skip_whitespace s1 = e # s2"
    by (auto split: list.splits)
  have l: "length s2 < length s"
    using "8.IH"(1) [OF v] skip_whitespace_Cons [OF e] by simp
  show ?case
  proof (cases "e = CHR '']''")
    case True
    with v e 8(3) have "r = s2" by simp
    with l show ?thesis by simp
  next
    case False
    with v e 8(3) have c: "e = CHR '',''"
      and p: "parse_items n dp md (its @ [v']) (skip_whitespace s2) = Scanned v r"
      by (auto split: if_splits)
    have "length r < length (skip_whitespace s2)"
      using "8.IH"(2) [OF v e False c p] by simp
    with l skip_whitespace_le [of s2] show ?thesis by simp
  qed
qed


lemma scan_fuel:
  "2 * length s + 1 \<le> n \<Longrightarrow> scan_once n dp md s \<noteq> Out_of_fuel"
  "2 * length s + 1 \<le> n \<Longrightarrow> parse_pairs n dp md ps s \<noteq> Out_of_fuel"
  "2 * length s + 2 \<le> n \<Longrightarrow> parse_items n dp md its s \<noteq> Out_of_fuel"
proof (induction n dp md s and n dp md ps s and n dp md its s
    rule: scan_once_parse_pairs_parse_items.induct)
  case (1 dp md s)
  then show ?case by simp
next
  case (2 n dp md)
  then show ?case by simp
next
  case (3 n dp md c s)
  show ?case
  proof
    assume a: "scan_once (Suc n) dp md (c # s) = Out_of_fuel"
    then have nq: "c \<noteq> CHR 0x22" by (auto split: option.splits)
    show False
    proof (cases "c = CHR ''{''")
      case True
      with nq a have dp0: "dp \<noteq> 0" by (auto split: if_splits)
      with nq True a obtain d rest where d: "skip_whitespace s = d # rest" "d \<noteq> CHR ''}''"
        "parse_pairs n (dp - 1) md [] (d # rest) = Out_of_fuel"
        by (auto split: list.splits if_splits)
      have "2 * length (d # rest) + 1 \<le> n"
        using 3(3) skip_whitespace_le [of s] d(1) by simp
      from "3.IH"(1) [OF nq True dp0 d(1) d(2) this] d(3) show False by simp
    next
      case nb: False
      show False
      proof (cases "c = CHR ''[''")
        case True
        with nq nb a have dp0: "dp \<noteq> 0" by (auto split: if_splits)
        with nq nb True a obtain d rest where d: "skip_whitespace s = d # rest" "d \<noteq> CHR '']''"
          "parse_items n (dp - 1) md [] (d # rest) = Out_of_fuel"
          by (auto split: list.splits if_splits)
        have "2 * length (d # rest) + 2 \<le> n"
          using 3(3) skip_whitespace_le [of s] d(1) by simp
        from "3.IH"(2) [OF nq nb True dp0 d(1) d(2) this] d(3) show False by simp
      next
        case False
        with nq nb a show False by (simp add: scan_literal_fuel)
      qed
    qed
  qed
next
  case (4 dp md ps s)
  then show ?case by simp
next
  case (5 n dp md ps)
  then show ?case by simp
next
  case (6 n dp md ps c s)
  show ?case
  proof
    assume a: "parse_pairs (Suc n) dp md ps (c # s) = Out_of_fuel"
    then have q: "c = CHR 0x22" by (auto split: if_splits)
    with a obtain key s1 where k: "scanstring s = Some (key, s1)"
      by (auto split: option.splits)
    with q a obtain d s2 where d: "skip_whitespace s1 = d # s2" "d = CHR '':''"
      by (auto split: list.splits if_splits)
    have l2: "length (skip_whitespace s2) + 2 \<le> length s"
      using scanstring_shorter [OF k] skip_whitespace_Cons [OF d(1)] skip_whitespace_le [of s2]
      by simp
    have b1: "2 * length (skip_whitespace s2) + 1 \<le> n" using 6(3) l2 by simp
    have nf: "scan_once n dp md (skip_whitespace s2) \<noteq> Out_of_fuel"
      using "6.IH"(1) [OF _ k refl d(1) _ b1] q d(2) by simp
    with q k d a obtain v' s3 e s4 where v: "scan_once n dp md (skip_whitespace s2) = Scanned v' s3"
      and e: "skip_whitespace s3 = e # s4" "e \<noteq> CHR ''}''" "e = CHR '',''"
      and p: "parse_pairs n dp md (AList.update key v' ps) (skip_whitespace s4) = Out_of_fuel"
      by (auto split: scanned.splits list.splits if_splits)
    have "length (skip_whitespace s4) \<le> length s"
      using scan_shorter(1) [OF v] skip_whitespace_Cons [OF e(1)] skip_whitespace_le [of s4] l2
      by simp
    then have b2: "2 * length (skip_whitespace s4) + 1 \<le> n" using 6(3) by simp
    from "6.IH"(2) [OF _ k refl d(1) _ v e(1) e(2) e(3) b2] q d(2) p show False by simp
  qed
next
  case (7 dp md its s)
  then show ?case by simp
next
  case (8 n dp md its s)
  show ?case
  proof
    assume a: "parse_items (Suc n) dp md its s = Out_of_fuel"
    have b1: "2 * length s + 1 \<le> n" using 8(3) by simp
    from "8.IH"(1) [OF b1] a obtain v' s1 e s2 where v: "scan_once n dp md s = Scanned v' s1"
      and e: "skip_whitespace s1 = e # s2" "e \<noteq> CHR '']''" "e = CHR '',''"
      and p: "parse_items n dp md (its @ [v']) (skip_whitespace s2) = Out_of_fuel"
      by (auto split: scanned.splits list.splits if_splits)
    have "length (skip_whitespace s2) + 2 \<le> length s"
      using scan_shorter(1) [OF v] skip_whitespace_Cons [OF e(1)] skip_whitespace_le [of s2]
      by simp
    then have b2: "2 * length (skip_whitespace s2) + 2 \<le> n" using 8(3) by simp
    from "8.IH"(2) [OF v e(1) e(2) e(3) b2] p show False by simp
  qed
qed

lemma json_loads_fuel:
  "scan_once (2 * length s + 1) dp md (skip_whitespace s) \<noteq> Out_of_fuel"
  using skip_whitespace_le [of s] by (intro scan_fuel(1)) simp


lemma scan_mono:
  "scan_once n dp md s \<noteq> Out_of_fuel \<Longrightarrow> n \<le> m \<Longrightarrow> scan_once m dp md s = scan_once n dp md s"
  "parse_pairs n dp md ps s \<noteq> Out_of_fuel \<Longrightarrow> n \<le> m \<Longrightarrow> parse_pairs m dp md ps s = parse_pairs n dp md ps s"
  "parse_items n dp md its s \<noteq> Out_of_fuel \<Longrightarrow> n \<le> m \<Longrightarrow> parse_items m dp md its s = parse_items n dp md its s"
proof (induction n dp md s and n dp md ps s and n dp md its s arbitrary: m and m and m
    rule: scan_once_parse_pairs_parse_items.induct)
  case (1 dp md s)
  then show ?case by simp
next
  case (2 n dp md)
  then obtain m' where "m = Suc m'" by (cases m) auto
  then show ?case by simp
next
  case (3 n dp md c s)
  from 3(4) obtain m' where m: "m = Suc m'" "n \<le> m'" by (cases m) auto
  have P: "parse_pairs m' (dp - Suc 0) md [] (d # rest) = parse_pairs n (dp - Suc 0) md [] (d # rest)"
    if "c \<noteq> CHR 0x22" "c = CHR ''{''" "0 < dp" "skip_whitespace s = d # rest"
      "d \<noteq> CHR ''}''" for d rest
    using "3.IH"(1) [OF that(1) that(2) _ that(4) that(5) _ m(2)] 3(3) that by simp
  have I: "parse_items m' (dp - Suc 0) md [] (d # rest) = parse_items n (dp - Suc 0) md [] (d # rest)"
    if "c \<noteq> CHR 0x22" "c \<noteq> CHR ''{''" "c = CHR ''[''" "0 < dp"
      "skip_whitespace s = d # rest" "d \<noteq> CHR '']''" for d rest
    using "3.IH"(2) [OF that(1) that(2) that(3) _ that(5) that(6) _ m(2)] 3(3) that by simp
  show ?case unfolding m(1)
    by (simp add: P I split: list.split)
next
  case (4 dp md ps s)
  then show ?case by simp
next
  case (5 n dp md ps)
  then obtain m' where "m = Suc m'" by (cases m) auto
  then show ?case by simp
next
  case (6 n dp md ps c s)
  from 6(4) obtain m' where m: "m = Suc m'" "n \<le> m'" by (cases m) auto
  have S: "scan_once m' dp md (skip_whitespace s2) = scan_once n dp md (skip_whitespace s2)"
    if "c = CHR 0x22" "scanstring s = Some (key, s1)" "skip_whitespace s1 = d # s2"
      "d = CHR '':''" for key s1 d s2
  proof -
    from 6(3) that have "scan_once n dp md (skip_whitespace s2) \<noteq> Out_of_fuel"
      by (auto split: scanned.splits)
    from "6.IH"(1) [OF _ that(2) refl that(3) _ this m(2)] that show ?thesis by simp
  qed
  have P: "parse_pairs m' dp md (AList.update key v ps) (skip_whitespace s4)
         = parse_pairs n dp md (AList.update key v ps) (skip_whitespace s4)"
    if "c = CHR 0x22" "scanstring s = Some (key, s1)" "skip_whitespace s1 = d # s2"
      "d = CHR '':''" "scan_once n dp md (skip_whitespace s2) = Scanned v s3"
      "skip_whitespace s3 = e # s4" "e \<noteq> CHR ''}''" "e = CHR '',''"
    for key s1 d s2 v s3 e s4
  proof -
    from 6(3) that
    have "parse_pairs n dp md (AList.update key v ps) (skip_whitespace s4) \<noteq> Out_of_fuel"
      by simp
    from "6.IH"(2) [OF _ that(2) refl that(3) _ that(5) that(6) that(7) that(8) this m(2)] that
    show ?thesis by simp
  qed
  show ?case unfolding m(1)
    by (auto simp: S P split: option.split list.split scanned.split)
next
  case (7 dp md its s)
  then show ?case by simp
next
  case (8 n dp md its s)
  from 8(4) obtain m' where m: "m = Suc m'" "n \<le> m'" by (cases m) auto
  from 8(3) have "scan_once n dp md s \<noteq> Out_of_fuel" by (auto split: scanned.splits)
  from "8.IH"(1) [OF this m(2)] have S: "scan_once m' dp md s = scan_once n dp md s" .
  have I: "parse_items m' dp md (its @ [v]) (skip_whitespace s2)
         = parse_items n dp md (its @ [v]) (skip_whitespace s2)"
    if "scan_once n dp md s = Scanned v s1" "skip_whitespace s1 = e # s2" "e \<noteq> CHR '']''"
      "e = CHR '',''" for v s1 e s2
  proof -
    from 8(3) that have "parse_items n dp md (its @ [v]) (skip_whitespace s2) \<noteq> Out_of_fuel"
      by simp
    from "8.IH"(2) [OF that this m(2)] show ?thesis .
  qed
  show ?case unfolding m(1)
    by (auto simp: S I split: list.split scanned.split)
qed



















lemma hex_value_hex_digit_all:
  "list_all (\<lambda>n. hex_value (''0123456789abcdef'' ! n) = Some n) [0..<16]"
  by code_simp

lemma hex_value_hex_digit: "hex_value (hex_digit n) = Some (n mod 16)"
proof -
  have "n mod 16 \<in> set [0..<16]" by simp
  with hex_value_hex_digit_all show ?thesis
    unfolding hex_digit_def list_all_iff by blast
qed

lemma decode_hex4_u_escape:
  assumes "n < 256"
  shows "decode_hex4 (hex_digit (n div 4096)) (hex_digit (n div 256)) (hex_digit (n div 16))
           (hex_digit n) = Some n"
proof -
  from assms have "n div 4096 = 0" "n div 256 = 0" "n div 16 mod 16 = n div 16" by simp_all
  then show ?thesis
    by (simp add: decode_hex4_def hex_value_hex_digit)
qed

lemma scanstring_u_escape:
  assumes "n < 256"
  shows "scanstring (u_escape n @ rest) = cons_char n (scanstring rest)"
proof -
  have "\<not> is_high_surrogate n" using assms by (simp add: is_high_surrogate_def)
  then show ?thesis
    unfolding u_escape_def
    using scanstring_unicode_single [OF decode_hex4_u_escape [OF assms], of rest] by simp
qed

lemma of_char_less_256: "(of_char c :: nat) < 256"
  by (metis of_char_mod_256 mod_less_divisor zero_less_numeral)

lemma char_eq_code: "c = d \<longleftrightarrow> (of_char c :: nat) = of_char d"
  by simp

lemma scanstring_escape_char:
  "scanstring (escape_char c @ rest) = cons_char (of_char c) (scanstring rest)"
proof -
  let ?n = "of_char c :: nat"
  consider "?n = 92" | "?n = 34" | "?n = 8" | "?n = 12" | "?n = 10" | "?n = 13" | "?n = 9"
    | "32 \<le> ?n" "?n \<le> 126" "?n \<noteq> 92" "?n \<noteq> 34"
    | "?n \<noteq> 92" "?n \<noteq> 34" "?n \<noteq> 8" "?n \<noteq> 12" "?n \<noteq> 10" "?n \<noteq> 13" "?n \<noteq> 9"
      "\<not> (32 \<le> ?n \<and> ?n \<le> 126)"
    by linarith
  then show ?thesis
  proof cases
    case 8
    then have "c \<noteq> CHR 0x22" "c \<noteq> CHR 0x5C" by (auto simp: char_eq_code)
    with 8 show ?thesis
      by (simp add: escape_char_def scanstring_plain)
  next
    case 9
    then show ?thesis
      by (auto simp add: escape_char_def Let_def scanstring_u_escape of_char_less_256)
  qed (simp_all add: escape_char_def scanstring_backslash backslash_def)
qed

lemma scanstring_escaped:
  "scanstring (concat (map escape_char s) @ CHR 0x22 # rest) = Some (code_points s, rest)"
  by (induction s)
    (simp_all add: scanstring_quote scanstring_escape_char cons_char_def code_points_def)

lemma scan_once_string:
  "scan_once (Suc n) dp md (encode_basestring_ascii s @ rest) = Scanned (JStr (code_points s)) rest"
  by (simp add: encode_basestring_ascii_def scanstring_escaped)








section \<open>The round trip: auxiliary facts\<close>

lemma skip_whitespace_spaces: "skip_whitespace (replicate n CHR '' '' @ s) = skip_whitespace s"
  by (induction n) (simp_all add: skip_whitespace_def is_whitespace_def)

lemma skip_whitespace_newline_indent [simp]:
  "skip_whitespace (newline_indent k @ s) = skip_whitespace s"
  using skip_whitespace_spaces [of "4 * k" s]
  by (simp add: skip_whitespace_def newline_indent_def is_whitespace_def)

lemma skip_whitespace_space [simp]: "skip_whitespace (CHR '' '' # s) = skip_whitespace s"
  by (simp add: skip_whitespace_def is_whitespace_def)

lemma skip_whitespace_id: "\<not> is_whitespace c \<Longrightarrow> skip_whitespace (c # s) = c # s"
  by (simp add: skip_whitespace_def)

lemma not_whitespace [simp]:
  "\<not> is_whitespace CHR 0x22" "\<not> is_whitespace CHR ''[''" "\<not> is_whitespace CHR '']''"
  "\<not> is_whitespace CHR ''{''" "\<not> is_whitespace CHR ''}''" "\<not> is_whitespace CHR '',''"
  "\<not> is_whitespace CHR '':''"
  by (simp_all add: is_whitespace_def)

lemma encode_basestring_ascii_Cons:
  "encode_basestring_ascii s @ r = CHR 0x22 # concat (map escape_char s) @ CHR 0x22 # r"
  by (simp add: encode_basestring_ascii_def)

lemma reads_string: "reads (scan_once n dp md (encode_basestring_ascii s @ t)) (JStr (code_points s)) t"
  by (cases n) (simp_all add: reads_def scan_once_string)

lemma join_strings_Cons:
  "xs \<noteq> [] \<Longrightarrow> \<exists>t'. join sep (map encode_basestring_ascii xs) @ t = CHR 0x22 # t'"
  by (cases xs; cases "tl xs") (auto simp: encode_basestring_ascii_def)

lemma parse_items_strings:
  "xs \<noteq> [] \<Longrightarrow>
   reads (parse_items n dp md acc
            (join (CHR '','' # newline_indent k) (map encode_basestring_ascii xs)
             @ newline_indent j @ CHR '']'' # rest))
         (JArr (acc @ map (\<lambda>x. JStr (code_points x)) xs)) rest"
proof (induction xs arbitrary: n acc)
  case Nil
  then show ?case by simp
next
  case (Cons x xs)
  show ?case
  proof (cases n)
    case 0
    then show ?thesis by (simp add: reads_def)
  next
    case (Suc m)
    show ?thesis
    proof (cases xs)
      case Nil
      have "reads (scan_once m dp md (encode_basestring_ascii x @ newline_indent j @ CHR '']'' # rest))
              (JStr (code_points x)) (newline_indent j @ CHR '']'' # rest)"
        by (rule reads_string)
      then show ?thesis using Nil Suc
        by (auto simp: reads_def skip_whitespace_id)
    next
      case (Cons y ys)
      let ?t = "join (CHR '','' # newline_indent k) (map encode_basestring_ascii (y # ys))
                @ newline_indent j @ CHR '']'' # rest"
      obtain t' where t': "?t = CHR 0x22 # t'"
        using join_strings_Cons [of "y # ys"] by blast
      have "reads (scan_once m dp md (encode_basestring_ascii x @ CHR '','' # newline_indent k @ ?t))
              (JStr (code_points x)) (CHR '','' # newline_indent k @ ?t)"
        by (rule reads_string)
      moreover have "reads (parse_items m dp md (acc @ [JStr (code_points x)]) ?t)
          (JArr ((acc @ [JStr (code_points x)]) @ map (\<lambda>x. JStr (code_points x)) (y # ys))) rest"
        using Cons.IH [of m "acc @ [JStr (code_points x)]"] Cons by simp
      moreover have "skip_whitespace ?t = ?t" unfolding t' by (simp add: skip_whitespace_id)
      ultimately show ?thesis using Cons Suc
        by (auto simp: reads_def skip_whitespace_id)
    qed
  qed
qed

lemma scan_once_bracket:
  "dp \<noteq> 0 \<Longrightarrow> skip_whitespace s = d # r \<Longrightarrow> d \<noteq> CHR '']'' \<Longrightarrow>
   scan_once (Suc n) dp md (CHR ''['' # s) = parse_items n (dp - 1) md [] (d # r)"
  by simp

lemma scan_once_brace:
  "dp \<noteq> 0 \<Longrightarrow> skip_whitespace s = d # r \<Longrightarrow> d \<noteq> CHR ''}'' \<Longrightarrow>
   scan_once (Suc n) dp md (CHR ''{'' # s) = parse_pairs n (dp - 1) md [] (d # r)"
  by simp

lemma reads_dump_list:
  assumes "dp \<noteq> 0"
  shows "reads (scan_once n dp md (dump_list level xs @ rest))
           (JArr (map (\<lambda>x. JStr (code_points x)) xs)) rest"
proof (cases n)
  case 0
  then show ?thesis by (simp add: reads_def)
next
  case (Suc m)
  show ?thesis
  proof (cases "xs = []")
    case True
    with assms Suc show ?thesis by (simp add: reads_def dump_list_def skip_whitespace_id)
  next
    case False
    let ?t = "join (CHR '','' # newline_indent (level + 1)) (map encode_basestring_ascii xs)
              @ newline_indent level @ CHR '']'' # rest"
    from False obtain t' where t': "?t = CHR 0x22 # t'"
      using join_strings_Cons [of xs] by blast
    have "skip_whitespace (newline_indent (level + 1) @ ?t) = CHR 0x22 # t'"
      by (simp only: skip_whitespace_newline_indent t') (simp add: skip_whitespace_id)
    moreover have "CHR 0x22 \<noteq> CHR '']''" by simp
    ultimately
    have "scan_once (Suc m) dp md (CHR ''['' # newline_indent (level + 1) @ ?t)
            = parse_items m (dp - 1) md [] (CHR 0x22 # t')"
      by (rule scan_once_bracket [OF assms])
    then
    have "scan_once (Suc m) dp md (CHR ''['' # newline_indent (level + 1) @ ?t)
            = parse_items m (dp - 1) md [] ?t"
      by (simp only: t')
    moreover have "dump_list level xs @ rest = CHR ''['' # newline_indent (level + 1) @ ?t"
      using False by (simp add: dump_list_def)
    ultimately show ?thesis
      using parse_items_strings [OF False, of m "dp - 1" md "[]" "level + 1" level rest] Suc
      by simp
  qed
qed

lemma skip_whitespace_dump_list [simp]:
  "skip_whitespace (dump_list level xs @ t) = dump_list level xs @ t"
  by (simp add: dump_list_def skip_whitespace_id)

lemma skip_whitespace_encode [simp]:
  "skip_whitespace (encode_basestring_ascii s @ t) = encode_basestring_ascii s @ t"
  by (simp add: encode_basestring_ascii_def skip_whitespace_id)

lemma parse_pairs_step:
  assumes "reads (scan_once n dp md (vtext @ t)) v t"
    and "skip_whitespace (vtext @ t) = vtext @ t"
  shows "parse_pairs (Suc n) dp md acc (encode_basestring_ascii k @ '': '' @ vtext @ t) = Out_of_fuel
       \<or> parse_pairs (Suc n) dp md acc (encode_basestring_ascii k @ '': '' @ vtext @ t) =
           (case skip_whitespace t of
              [] \<Rightarrow> Decode_error
            | e # s4 \<Rightarrow>
                if e = CHR ''}'' then Scanned (JObj (AList.update (code_points k) v acc)) s4
                else if e = CHR '','' then
                  parse_pairs n dp md (AList.update (code_points k) v acc) (skip_whitespace s4)
                else Decode_error)"
  using assms
  by (auto simp: reads_def encode_basestring_ascii_Cons scanstring_escaped skip_whitespace_id)

lemma parse_pairs_last:
  assumes "\<And>n. reads (scan_once n dp md (vtext @ newline_indent j @ CHR ''}'' # rest)) v
                 (newline_indent j @ CHR ''}'' # rest)"
    and "\<And>t. skip_whitespace (vtext @ t) = vtext @ t"
  shows "reads (parse_pairs n dp md acc
                  (encode_basestring_ascii k @ '': '' @ vtext @ newline_indent j @ CHR ''}'' # rest))
               (JObj (AList.update (code_points k) v acc)) rest"
proof (cases n)
  case 0
  then show ?thesis by (simp add: reads_def)
next
  case (Suc m)
  from parse_pairs_step [OF assms(1) assms(2), of m acc k] Suc show ?thesis
    by (auto simp: reads_def skip_whitespace_id)
qed

lemma parse_pairs_more:
  assumes "\<And>n. reads (scan_once n dp md (vtext @ CHR '','' # newline_indent j @ u)) v
                 (CHR '','' # newline_indent j @ u)"
    and "\<And>t. skip_whitespace (vtext @ t) = vtext @ t"
    and "\<And>n. reads (parse_pairs n dp md (AList.update (code_points k) v acc) (skip_whitespace u))
                 w rest"
  shows "reads (parse_pairs n dp md acc
                  (encode_basestring_ascii k @ '': '' @ vtext @ CHR '','' # newline_indent j @ u))
               w rest"
proof (cases n)
  case 0
  then show ?thesis by (simp add: reads_def)
next
  case (Suc m)
  from parse_pairs_step [OF assms(1) assms(2), of m acc k] assms(3) [of m] Suc show ?thesis
    by (auto simp: reads_def skip_whitespace_id)
qed

lemma skip_whitespace_dump_account [simp]:
  "skip_whitespace (dump_account level a @ t) = dump_account level a @ t"
  by (simp add: dump_account_def skip_whitespace_id)

lemma reads_dump_account:
  assumes "2 \<le> dp"
  shows "reads (scan_once n dp md (dump_account level a @ rest)) (json_of_account a) rest"
proof (cases n)
  case 0
  then show ?thesis by (simp add: reads_def)
next
  case (Suc m)
  let ?list = "dump_list (level + 1) (my_list a)"
  let ?t2 = "encode_basestring_ascii ''my_list'' @ '': '' @ ?list
             @ newline_indent level @ CHR ''}'' # rest"
  let ?t1 = "encode_basestring_ascii ''password_hash'' @ '': ''
             @ encode_basestring_ascii (password_hash a)
             @ CHR '','' # newline_indent (level + 1) @ ?t2"
  from assms have dp: "dp \<noteq> 0" "dp - 1 \<noteq> 0" by simp_all
  have 2: "reads (parse_pairs k (dp - 1) md acc ?t2)
             (JObj (AList.update (code_points ''my_list'')
                (JArr (map (\<lambda>x. JStr (code_points x)) (my_list a))) acc)) rest" for k acc
    by (rule parse_pairs_last, rule reads_dump_list [OF dp(2)], rule skip_whitespace_dump_list)
  have 1: "reads (parse_pairs k (dp - 1) md [] ?t1)
             (JObj (AList.update (code_points ''my_list'')
                (JArr (map (\<lambda>x. JStr (code_points x)) (my_list a)))
                (AList.update (code_points ''password_hash'')
                   (JStr (code_points (password_hash a))) []))) rest" for k
    by (rule parse_pairs_more, rule reads_string, rule skip_whitespace_encode,
        simp only: skip_whitespace_encode, rule 2)
  have "skip_whitespace (newline_indent (level + 1) @ ?t1)
          = CHR 0x22 # concat (map escape_char ''password_hash'') @ CHR 0x22 #
            ('': '' @ encode_basestring_ascii (password_hash a)
             @ CHR '','' # newline_indent (level + 1) @ ?t2)"
    by (simp only: skip_whitespace_newline_indent skip_whitespace_encode)
       (simp add: encode_basestring_ascii_def)
  moreover have "CHR 0x22 \<noteq> CHR ''}''" by simp
  ultimately have "scan_once (Suc m) dp md (CHR ''{'' # newline_indent (level + 1) @ ?t1)
      = parse_pairs m (dp - 1) md []
          (CHR 0x22 # concat (map escape_char ''password_hash'') @ CHR 0x22 #
            ('': '' @ encode_basestring_ascii (password_hash a)
             @ CHR '','' # newline_indent (level + 1) @ ?t2))"
    by (rule scan_once_brace [OF dp(1)])
  also have "\<dots> = parse_pairs m (dp - 1) md [] ?t1"
    by (simp add: encode_basestring_ascii_def)
  finally have "scan_once (Suc m) dp md (dump_account level a @ rest)
      = parse_pairs m (dp - 1) md [] ?t1"
    by (simp add: dump_account_def)
  with 1 [of m] Suc show ?thesis
    by (simp add: json_of_account_def code_points_def)
qed

lemma code_points_eq_iff: "code_points a = code_points b \<longleftrightarrow> a = b"
  by (simp add: code_points_def inj_map_eq_map inj_def)

lemma skip_whitespace_dump_item [simp]:
  "skip_whitespace (dump_item ka @ t) = dump_item ka @ t"
  by (cases ka) (simp add: dump_item_def)

lemma join_Cons_append: "join sep (x # xs) @ t = x @ (if xs = [] then t else sep @ join sep xs @ t)"
  by (cases xs) simp_all

lemma skip_whitespace_join_items:
  "accs \<noteq> [] \<Longrightarrow> skip_whitespace (join sep (map dump_item accs) @ t) = join sep (map dump_item accs) @ t"
  by (cases accs) (simp_all add: join_Cons_append del: join.simps)

lemma parse_pairs_items:
  assumes "2 \<le> dp"
  shows "accs \<noteq> [] \<Longrightarrow>
    reads (parse_pairs n dp md acc
             (join (CHR '','' # newline_indent 1) (map dump_item accs)
              @ newline_indent 0 @ CHR ''}'' # rest))
          (JObj (foldl (\<lambda>ps (k, a). AList.update (code_points k) (json_of_account a) ps) acc accs))
          rest"
proof (induction accs arbitrary: n acc)
  case Nil
  then show ?case by simp
next
  case (Cons ka accs)
  obtain k a where ka: "ka = (k, a)" by (cases ka)
  show ?case
  proof (cases accs)
    case Nil
    have "reads (parse_pairs n dp md acc
             (encode_basestring_ascii k @ '': '' @ dump_account 1 a
              @ newline_indent 0 @ CHR ''}'' # rest))
          (JObj (AList.update (code_points k) (json_of_account a) acc)) rest"
      by (rule parse_pairs_last, rule reads_dump_account [OF assms],
          rule skip_whitespace_dump_account)
    with Nil ka show ?thesis by (simp add: dump_item_def)
  next
    case (Cons y ys)
    let ?u = "join (CHR '','' # newline_indent 1) (map dump_item (y # ys))
              @ newline_indent 0 @ CHR ''}'' # rest"
    let ?w = "JObj (foldl (\<lambda>ps (k, a). AList.update (code_points k) (json_of_account a) ps)
                (AList.update (code_points k) (json_of_account a) acc) (y # ys))"
    have u: "skip_whitespace ?u = ?u" by (rule skip_whitespace_join_items) simp
    have "reads (parse_pairs n dp md acc
             (encode_basestring_ascii k @ '': '' @ dump_account 1 a
              @ CHR '','' # newline_indent 1 @ ?u)) ?w rest"
    proof (rule parse_pairs_more)
      show "reads (scan_once n dp md (dump_account 1 a @ CHR '','' # newline_indent 1 @ ?u))
              (json_of_account a) (CHR '','' # newline_indent 1 @ ?u)" for n
        by (rule reads_dump_account [OF assms])
      show "skip_whitespace (dump_account 1 a @ t) = dump_account 1 a @ t" for t
        by (rule skip_whitespace_dump_account)
      show "reads (parse_pairs n dp md (AList.update (code_points k) (json_of_account a) acc)
                     (skip_whitespace ?u)) ?w rest" for n
        unfolding u using Cons.IH [of n "AList.update (code_points k) (json_of_account a) acc"] Cons
        by simp
    qed
    with Cons ka show ?thesis by (simp add: dump_item_def)
  qed
qed

lemma reads_json_dump:
  assumes "3 \<le> dp"
  shows "reads (scan_once n dp md (json_dump accs @ rest))
           (JObj (foldl (\<lambda>ps (k, a). AList.update (code_points k) (json_of_account a) ps) [] accs))
           rest"
proof (cases n)
  case 0
  then show ?thesis by (simp add: reads_def)
next
  case (Suc m)
  from assms have dp: "dp \<noteq> 0" "2 \<le> dp - 1" by simp_all
  show ?thesis
  proof (cases "accs = []")
    case True
    with dp Suc show ?thesis by (simp add: reads_def json_dump_def skip_whitespace_id)
  next
    case False
    let ?t = "join (CHR '','' # newline_indent 1) (map dump_item accs)
              @ newline_indent 0 @ CHR ''}'' # rest"
    from False obtain ka accs' where accs: "accs = ka # accs'" by (cases accs) auto
    obtain k a where ka: "ka = (k, a)" by (cases ka)
    obtain t' where t': "?t = CHR 0x22 # t'"
      unfolding accs ka by (simp add: join_Cons_append dump_item_def encode_basestring_ascii_def
          del: join.simps)
    have "skip_whitespace (newline_indent 1 @ ?t) = CHR 0x22 # t'"
      by (simp only: skip_whitespace_newline_indent t') (simp add: skip_whitespace_id)
    moreover have "CHR 0x22 \<noteq> CHR ''}''" by simp
    ultimately
    have "scan_once (Suc m) dp md (CHR ''{'' # newline_indent 1 @ ?t)
            = parse_pairs m (dp - 1) md [] (CHR 0x22 # t')"
      by (rule scan_once_brace [OF dp(1)])
    then have "scan_once (Suc m) dp md (CHR ''{'' # newline_indent 1 @ ?t)
            = parse_pairs m (dp - 1) md [] ?t"
      by (simp only: t')
    moreover have "json_dump accs @ rest = CHR ''{'' # newline_indent 1 @ ?t"
      using False by (simp add: json_dump_def)
    ultimately show ?thesis
      using parse_pairs_items [OF dp(2) False, of m md "[]" rest] Suc by simp
  qed
qed

lemma foldl_update_fresh:
  "distinct (map fst accs) \<Longrightarrow> \<forall>k \<in> fst ` set accs. map_of acc (code_points k) = None \<Longrightarrow>
   foldl (\<lambda>ps (k, a). AList.update (code_points k) (json_of_account a) ps) acc accs
     = acc @ map account_pair accs"
proof (induction accs arbitrary: acc)
  case Nil
  then show ?case by simp
next
  case (Cons ka accs)
  obtain k a where ka: "ka = (k, a)" by (cases ka)
  from Cons.prems ka have fresh: "map_of acc (code_points k) = None" by simp
  have "\<forall>k' \<in> fst ` set accs. map_of (acc @ [(code_points k, json_of_account a)]) (code_points k') = None"
    using Cons.prems ka by (auto simp: map_of_append code_points_eq_iff map_add_def split: option.splits)
  with Cons.IH [of "acc @ [(code_points k, json_of_account a)]"] Cons.prems
  show ?case by (simp add: ka update_new_key [OF fresh] account_pair_def)
qed

lemma json_of_store_account_pair: "json_of_store accs = JObj (map account_pair accs)"
  by (simp add: json_of_store_def account_pair_def)

lemma skip_whitespace_json_dump [simp]: "skip_whitespace (json_dump accs) = json_dump accs"
  by (simp add: json_dump_def skip_whitespace_id)

lemma json_loads_json_dump:
  assumes "distinct (map fst accs)" and "3 \<le> recursion_limit I"
  shows "json_loads I (json_dump accs) = Decoded (json_of_store accs)"
proof -
  let ?r = "scan_once (2 * length (json_dump accs) + 1) (recursion_limit I) (int_max_str_digits I)
              (skip_whitespace (json_dump accs))"
  have "?r \<noteq> Out_of_fuel" by (rule json_loads_fuel)
  moreover have "reads ?r (JObj (map account_pair accs)) []"
    using reads_json_dump [OF assms(2), of "2 * length (json_dump accs) + 1" "int_max_str_digits I" accs "[]"]
      foldl_update_fresh [OF assms(1), of "[]"]
    by simp
  ultimately have "?r = Scanned (json_of_store accs) []"
    by (simp add: reads_def json_of_store_account_pair)
  then show ?thesis by (simp add: json_loads_def skip_whitespace_def)
qed

lemma is_ascii_append [simp]: "is_ascii (a @ b) = (is_ascii a \<and> is_ascii b)"
  by (simp add: is_ascii_def)

lemma is_ascii_Cons [simp]: "is_ascii (c # s) = ((of_char c :: nat) < 128 \<and> is_ascii s)"
  by (simp add: is_ascii_def)

lemma is_ascii_Nil [simp]: "is_ascii []"
  by (simp add: is_ascii_def)

lemma is_ascii_hex_digit: "(of_char (hex_digit n) :: nat) < 128"
proof -
  have "n mod 16 < 16" by simp
  then have "hex_digit n \<in> set ''0123456789abcdef''"
    unfolding hex_digit_def by (intro nth_mem) simp
  then show ?thesis by auto
qed

lemma is_ascii_escape_char: "is_ascii (escape_char c)"
  by (simp add: escape_char_def u_escape_def Let_def is_ascii_hex_digit)

lemma is_ascii_encode: "is_ascii (encode_basestring_ascii s)"
  by (induction s) (simp_all add: encode_basestring_ascii_def is_ascii_escape_char)

lemma is_ascii_newline_indent: "is_ascii (newline_indent k)"
  by (simp add: newline_indent_def is_ascii_def list_all_iff)

lemma is_ascii_join:
  "is_ascii sep \<Longrightarrow> \<forall>x \<in> set xs. is_ascii x \<Longrightarrow> is_ascii (join sep xs)"
  by (induction sep xs rule: join.induct) simp_all

lemma is_ascii_dump_list: "is_ascii (dump_list level xs)"
  by (simp add: dump_list_def is_ascii_newline_indent is_ascii_join is_ascii_encode)

lemma is_ascii_dump_account: "is_ascii (dump_account level a)"
  by (simp add: dump_account_def is_ascii_newline_indent is_ascii_dump_list is_ascii_encode)

lemma is_ascii_dump_item: "is_ascii (dump_item ka)"
  by (cases ka) (simp add: dump_item_def is_ascii_dump_account is_ascii_encode)

lemma is_ascii_json_dump: "is_ascii (json_dump accs)"
  by (simp add: json_dump_def is_ascii_newline_indent is_ascii_join is_ascii_dump_item)

lemma ascii_compatible_ascii_codec: "ascii_compatible ascii_codec"
  by (simp add: ascii_compatible_def ascii_codec_def is_ascii_def)

lemma load_accounts_json_dump:
  assumes "distinct (map fst accs)" and "ascii_compatible (codec I)" and "3 \<le> recursion_limit I"
  shows "load_accounts I (Some (json_dump accs)) = Inr (json_of_store accs, [])"
proof -
  from assms(2) have "codec I (json_dump accs) = Some (json_dump accs)"
    by (simp add: ascii_compatible_def is_ascii_json_dump)
  with json_loads_json_dump [OF assms(1) assms(3)] show ?thesis
    by (simp add: load_accounts_def)
qed



lemma json_of_account_eq_iff: "json_of_account a = json_of_account b \<longleftrightarrow> a = b"
  by (cases a; cases b)
     (auto simp: json_of_account_def code_points_eq_iff inj_map_eq_map inj_def)

lemma json_of_store_eq_iff: "json_of_store a = json_of_store b \<longleftrightarrow> a = b"
proof -
  have "inj account_pair"
    by (auto simp: inj_def account_pair_def code_points_eq_iff json_of_account_eq_iff)
  then show ?thesis by (simp add: json_of_store_account_pair inj_map_eq_map)
qed

section \<open>The file and the store: auxiliary facts\<close>

lemma map_fst_set_my_list: "map fst (set_my_list u xs accs) = map fst accs"
  by (induction accs) (auto simp: set_my_list_def)

lemma register_account_page_saved:
  "register_account_page H st u p b = (st', ms, fl) \<Longrightarrow> saved st st'"
  by (auto simp: register_account_page_def Let_def save_accounts_def update_new_key saved_def
      split: if_splits)

lemma login_account_page_saved:
  "login_account_page H st u p b = (st', ms, fl) \<Longrightarrow> saved st st'"
  by (auto simp: login_account_page_def Let_def saved_def split: option.splits if_splits)

lemma manage_user_list_page_saved:
  "manage_user_list_page st w = Inr (st', ms, fl) \<Longrightarrow> saved st st'"
  using manage_user_list_page_effect [of st w st' ms fl]
  by (auto simp: saved_def map_fst_set_my_list)

lemma and_then_back_button_saved:
  assumes "and_then r (back_button b) = (st', ms, fl)" and "saved st (fst r)"
  shows "saved st st'"
proof -
  from assms(1) have "accounts st' = accounts (fst r) \<and> accounts_file st' = accounts_file (fst r)"
    by (cases r) (auto simp: and_then_def back_button_def split: flow.splits if_splits)
  with assms(2) show ?thesis by (simp add: saved_def)
qed

lemma step_saved:
  assumes "step H st st'"
  shows "saved st st'"
  using assms
proof (cases rule: step.cases)
  case (register_step u p b ms fl)
  then show ?thesis by (rule register_account_page_saved)
next
  case (login_step u p b ms fl)
  then show ?thesis by (rule login_account_page_saved)
next
  case (list_step lw ms fl)
  then show ?thesis by (rule manage_user_list_page_saved)
next
  case (script_step w ms fl)
  show ?thesis
  proof (cases "truthy (logged_in_user st)")
    case True
    with script_step have "manage_user_list_page st (list_page w) = Inr (st', ms, fl)"
      by (simp add: main_app_def)
    then show ?thesis by (rule manage_user_list_page_saved)
  next
    case False
    show ?thesis
    proof (cases "page st")
      case Home
      with False script_step show ?thesis
        by (auto simp: main_app_def saved_def split: if_splits)
    next
      case Register
      with False script_step have r: "and_then
               (register_account_page H st (register_username w)
                  (register_password w) (register_submitted w))
               (back_button (reg_back w)) = (st', ms, fl)"
        by (simp add: main_app_def)
      obtain s1 m1 f1 where p: "register_account_page H st (register_username w)
                  (register_password w) (register_submitted w) = (s1, m1, f1)"
        by (metis prod_cases3)
      from register_account_page_saved [OF p] have "saved st s1" .
      with r p show ?thesis by (intro and_then_back_button_saved [OF r]) simp
    next
      case Login
      with False script_step have r: "and_then
               (login_account_page H st (login_username w)
                  (login_password w) (login_submitted w))
               (back_button (login_back w)) = (st', ms, fl)"
        by (simp add: main_app_def)
      obtain s1 m1 f1 where p: "login_account_page H st (login_username w)
                  (login_password w) (login_submitted w) = (s1, m1, f1)"
        by (metis prod_cases3)
      from login_account_page_saved [OF p] have "saved st s1" .
      with r p show ?thesis by (intro and_then_back_button_saved [OF r]) simp
    next
      case List_management
      with False script_step show ?thesis
        by (auto simp: main_app_def saved_def split: if_splits)
    qed
  qed
qed

lemma saved_distinct:
  assumes "saved st st'" and "distinct (map fst (accounts st))"
  shows "distinct (map fst (accounts st'))"
  using assms by (auto simp: saved_def map_of_eq_None_iff)


lemma reachable_distinct:
  assumes "reachable H st0 st" and "distinct (map fst (accounts st0))"
  shows "distinct (map fst (accounts st))"
  using assms by (induction rule: reachable.induct) (auto intro: saved_distinct step_saved)


section \<open>Loading: properties\<close>



section \<open>Round trip: properties\<close>

text \<open>
  Claim C6. For every store that a session reaches by registrations and list operations
  from a store with one entry for each username, loading the file that \<open>save_accounts\<close>
  writes for it returns the store, as the JSON value \<open>json_of_store\<close> of it, with no
  warning and no error; and this value belongs to no other store. The interpreter decodes
  ASCII bytes to the same characters and allows the three nested calls that a store
  needs (the object of the accounts, an account, its list).
\<close>

theorem save_load_round_trip:
  assumes "reachable H st0 st" and "distinct (map fst (accounts st0))"
    and "ascii_compatible (codec I)" and "3 \<le> recursion_limit I"
  shows "load_accounts I (accounts_file (save_accounts (accounts st) st))
           = Inr (json_of_store (accounts st), [])
       \<and> (\<forall>accs. json_of_store accs = json_of_store (accounts st) \<longrightarrow> accs = accounts st)"
proof -
  from assms(1,2) have "distinct (map fst (accounts st))" by (rule reachable_distinct)
  then have "load_accounts I (Some (json_dump (accounts st))) = Inr (json_of_store (accounts st), [])"
    using assms(3,4) by (rule load_accounts_json_dump)
  then show ?thesis by (simp add: save_accounts_def json_of_store_eq_iff)
qed

section \<open>List management: the frame\<close>


section \<open>Login: properties\<close>

text \<open>
  Claim C1. With \<open>username\<close> and \<open>password\<close> the values the form handler holds (the two
  text inputs, stripped), a submitted login succeeds if and only if \<open>username\<close> is a key of
  the store and the hash of \<open>password\<close> is the stored \<open>password_hash\<close>. On success
  \<open>logged_in_user\<close> becomes that username and the page \<open>list_management\<close>; otherwise the
  one message ``Invalid username or password.'' is reported, whichever of the two checks
  failed, and the state is unchanged.
\<close>

theorem login_account_page_correct:
  "login_account_page H st username_input password_input True =
     (let username = strip username_input;
          password = strip password_input
      in if (\<exists>user_data. map_of (accounts st) username = Some user_data
               \<and> password_hash user_data = hash_password H password)
         then (st\<lparr>logged_in_user := Some username, page := List_management\<rparr>,
               [Success (''Welcome, '' @ username @ ''! You have successfully logged in.'')],
               Rerun)
         else (st, [Error ''Invalid username or password.''], Continue))"
  by (simp add: login_account_page_def Let_def split: option.split)

theorem login_account_page_correct_witness:
  "login_account_page (\<lambda>b. b)
     \<lparr>accounts = [(''alice'', \<lparr>password_hash = hash_password (\<lambda>b. b) ''Abc123!'',
                                my_list = []\<rparr>)],
      page = Login, logged_in_user = None, accounts_file = None\<rparr>
     ''alice'' ''Abc123!'' True =
   (\<lparr>accounts = [(''alice'', \<lparr>password_hash = hash_password (\<lambda>b. b) ''Abc123!'',
                                my_list = []\<rparr>)],
      page = List_management, logged_in_user = Some ''alice'', accounts_file = None\<rparr>,
    [Success ''Welcome, alice! You have successfully logged in.''], Rerun)"
  using login_account_page_correct [of "\<lambda>b. b"
     "\<lparr>accounts = [(''alice'', \<lparr>password_hash = hash_password (\<lambda>b. b) ''Abc123!'',
                                 my_list = []\<rparr>)],
       page = Login, logged_in_user = None, accounts_file = None\<rparr>" "''alice''" "''Abc123!''"]
  by (simp add: strip_def lstrip_def rstrip_def isspace_def Let_def)

section \<open>Worked examples\<close>

theorem register_validation_order_witness:
  "first_violation [(''alice'', \<lparr>password_hash = ''00'', my_list = []\<rparr>)] ''alice'' ''abc''
     = Some Username_not_taken
   \<and> register_account_page (\<lambda>b. b)
       \<lparr>accounts = [(''alice'', \<lparr>password_hash = ''00'', my_list = []\<rparr>)],
        page = Register, logged_in_user = None, accounts_file = None\<rparr>
       ''alice'' ''abc'' True =
     (\<lparr>accounts = [(''alice'', \<lparr>password_hash = ''00'', my_list = []\<rparr>)],
        page = Register, logged_in_user = None, accounts_file = None\<rparr>,
      [Error ''Username already exists. Please choose a different one.''], Continue)
   \<and> first_violation [(''alice'', \<lparr>password_hash = ''00'', my_list = []\<rparr>)] ''bob'' ''Abc123!''
     = None
   \<and> snd (snd (register_account_page (\<lambda>b. b)
       \<lparr>accounts = [(''alice'', \<lparr>password_hash = ''00'', my_list = []\<rparr>)],
        page = Register, logged_in_user = None, accounts_file = None\<rparr>
       ''bob'' ''Abc123!'' True)) = Rerun"
  using register_validation_order [of
       "\<lparr>accounts = [(''alice'', \<lparr>password_hash = ''00'', my_list = []\<rparr>)],
        page = Register, logged_in_user = None, accounts_file = None\<rparr>"
       "''alice''" "''abc''" Username_not_taken "\<lambda>b. b"]
    register_validation_order [of
       "\<lparr>accounts = [(''alice'', \<lparr>password_hash = ''00'', my_list = []\<rparr>)],
        page = Register, logged_in_user = None, accounts_file = None\<rparr>"
       "''bob''" "''Abc123!''" Username_not_taken "\<lambda>b. b"]
  by (simp add: strip_def lstrip_def rstrip_def isspace_def Let_def first_violation_def
      rules_in_order_def satisfies_def between_def special_characters_def rule_message_def)


theorem register_success_witness:
  "first_violation [(''alice'', \<lparr>password_hash = ''00'', my_list = [''milk'']\<rparr>)]
     (strip '' bob'') (strip ''Abc123! '') = None
   \<and> register_account_page (\<lambda>b. b)
       \<lparr>accounts = [(''alice'', \<lparr>password_hash = ''00'', my_list = [''milk'']\<rparr>)],
        page = Register, logged_in_user = None, accounts_file = None\<rparr>
       '' bob'' ''Abc123! '' True =
     (\<lparr>accounts = [(''alice'', \<lparr>password_hash = ''00'', my_list = [''milk'']\<rparr>),
                   (''bob'', \<lparr>password_hash = hash_password (\<lambda>b. b) ''Abc123!'',
                              my_list = []\<rparr>)],
        page = Login, logged_in_user = None,
        accounts_file = Some (json_dump
          [(''alice'', \<lparr>password_hash = ''00'', my_list = [''milk'']\<rparr>),
           (''bob'', \<lparr>password_hash = hash_password (\<lambda>b. b) ''Abc123!'', my_list = []\<rparr>)])\<rparr>,
      [Success ''Account 'bob' created successfully!''], Rerun)"
proof -
  let ?st = "\<lparr>accounts = [(''alice'', \<lparr>password_hash = ''00'', my_list = [''milk'']\<rparr>)],
        page = Register, logged_in_user = None, accounts_file = None\<rparr>"
  let ?r = "register_account_page (\<lambda>b. b) ?st '' bob'' ''Abc123! '' True"
  have h: "first_violation (accounts ?st) (strip '' bob'') (strip ''Abc123! '') = None"
    by (simp add: strip_def lstrip_def rstrip_def isspace_def Let_def first_violation_def
        rules_in_order_def satisfies_def between_def special_characters_def)
  have r: "?r = (fst ?r, fst (snd ?r), snd (snd ?r))" by simp
  have s: "strip '' bob'' = ''bob''" "strip ''Abc123! '' = ''Abc123!''"
    by (simp_all add: strip_def lstrip_def rstrip_def isspace_def Let_def)
  have m: "fst (snd ?r) = [Success ''Account 'bob' created successfully!'']"
    using h by (simp add: register_account_page_cases Let_def s)
  from register_success [OF h r] have
    "?r = (\<lparr>accounts = accounts ?st @ [(''bob'', \<lparr>password_hash = hash_password (\<lambda>b. b) ''Abc123!'',
                              my_list = []\<rparr>)],
        page = Login, logged_in_user = None,
        accounts_file = Some (json_dump (accounts ?st @
           [(''bob'', \<lparr>password_hash = hash_password (\<lambda>b. b) ''Abc123!'', my_list = []\<rparr>)]))\<rparr>,
      [Success ''Account 'bob' created successfully!''], Rerun)"
    unfolding s using m by (intro prod_eqI state.equality) simp_all
  with h show ?thesis by simp
qed


theorem login_strips_inputs_witness:
  "login_account_page (\<lambda>b. b)
     \<lparr>accounts = [(''bob'', \<lparr>password_hash = hash_password (\<lambda>b. b) ''Abc123!'', my_list = []\<rparr>)],
      page = Login, logged_in_user = None,
      accounts_file = Some (json_dump
        [(''bob'', \<lparr>password_hash = hash_password (\<lambda>b. b) ''Abc123!'', my_list = []\<rparr>)])\<rparr>
     ''  bob '' '' Abc123!  '' True =
   (\<lparr>accounts = [(''bob'', \<lparr>password_hash = hash_password (\<lambda>b. b) ''Abc123!'', my_list = []\<rparr>)],
      page = List_management, logged_in_user = Some ''bob'',
      accounts_file = Some (json_dump
        [(''bob'', \<lparr>password_hash = hash_password (\<lambda>b. b) ''Abc123!'', my_list = []\<rparr>)])\<rparr>,
    [Success ''Welcome, bob! You have successfully logged in.''], Rerun)"
proof -
  let ?st = "\<lparr>accounts = [(''bob'', \<lparr>password_hash = hash_password (\<lambda>b. b) ''Abc123!'',
                                     my_list = []\<rparr>)],
      page = Login, logged_in_user = None,
      accounts_file = Some (json_dump
        [(''bob'', \<lparr>password_hash = hash_password (\<lambda>b. b) ''Abc123!'', my_list = []\<rparr>)])\<rparr>"
  have s: "strip ''  bob '' = ''bob''" "strip '' Abc123!  '' = ''Abc123!''"
    "strip ''bob'' = ''bob''" "strip ''Abc123!'' = ''Abc123!''"
    by (simp_all add: strip_def lstrip_def rstrip_def isspace_def Let_def)
  have r: "register_account_page (\<lambda>b. b)
             \<lparr>accounts = [], page = Register, logged_in_user = None, accounts_file = None\<rparr>
             ''bob'' ''Abc123!'' True =
          (?st, [Success ''Account 'bob' created successfully!''], Rerun)"
    by (simp add: register_account_page_cases first_violation_def rules_in_order_def
        satisfies_def between_def special_characters_def new_account_def Let_def
        strip_def lstrip_def rstrip_def isspace_def)
  have "strip ''  bob '' = strip ''bob''" "strip '' Abc123!  '' = strip ''Abc123!''"
    by (simp_all add: s)
  with r have "register_account_page (\<lambda>b. b) \<lparr>accounts = [], page = Register, logged_in_user = None, accounts_file = None\<rparr> ''bob'' ''Abc123!'' True =
          (?st, [Success ''Account 'bob' created successfully!''], Rerun)
        \<and> strip ''  bob '' = strip ''bob'' \<and> strip '' Abc123!  '' = strip ''Abc123!''"
    by blast
  with login_strips_inputs [of "\<lambda>b. b" ?st "''  bob ''" "'' Abc123!  ''" True]
  have "login_account_page (\<lambda>b. b) ?st ''  bob '' '' Abc123!  '' True =
          (?st\<lparr>logged_in_user := Some (strip ''bob''), page := List_management\<rparr>,
           [Success (''Welcome, '' @ strip ''bob'' @ ''! You have successfully logged in.'')],
           Rerun)"
    by blast
  then show ?thesis by (simp add: s)
qed

theorem add_item_correct_witness:
  "manage_user_list_page
     \<lparr>accounts = [(''alice'', \<lparr>password_hash = ''00'', my_list = [''milk'']\<rparr>)],
      page = List_management, logged_in_user = Some ''alice'', accounts_file = None\<rparr>
     \<lparr>checkbox = (\<lambda>i. False), add_new_item_input = '' eggs '', add_item_button = True,
      clear_list_button = False, logout_button = False\<rparr> =
   Inr (\<lparr>accounts = [(''alice'', \<lparr>password_hash = ''00'', my_list = [''milk'', ''eggs'']\<rparr>)],
          page = List_management, logged_in_user = Some ''alice'',
          accounts_file = Some (json_dump
            [(''alice'', \<lparr>password_hash = ''00'', my_list = [''milk'', ''eggs'']\<rparr>)])\<rparr>,
        [Success ([CHR 0x27] @ ''eggs' added to your list!'')], Rerun)"
  using add_item_correct [of
     "\<lparr>accounts = [(''alice'', \<lparr>password_hash = ''00'', my_list = [''milk'']\<rparr>)],
      page = List_management, logged_in_user = Some ''alice'', accounts_file = None\<rparr>"
     "''alice''" "\<lparr>password_hash = ''00'', my_list = [''milk'']\<rparr>"
     "\<lparr>checkbox = (\<lambda>i. False), add_new_item_input = '' eggs '', add_item_button = True,
      clear_list_button = False, logout_button = False\<rparr>"]
  by (simp add: strip_def lstrip_def rstrip_def isspace_def Let_def set_my_list_def)

theorem remove_item_correct_witness:
  "manage_user_list_page
     \<lparr>accounts = [(''alice'', \<lparr>password_hash = ''00'', my_list = [''milk'', ''eggs'']\<rparr>),
                  (''bob'', \<lparr>password_hash = ''11'', my_list = [''eggs'']\<rparr>)],
      page = List_management, logged_in_user = Some ''alice'', accounts_file = None\<rparr>
     \<lparr>checkbox = (\<lambda>i. i = 1), add_new_item_input = [], add_item_button = False,
      clear_list_button = False, logout_button = False\<rparr> =
   Inr (\<lparr>accounts = [(''alice'', \<lparr>password_hash = ''00'', my_list = [''milk'']\<rparr>),
                      (''bob'', \<lparr>password_hash = ''11'', my_list = [''eggs'']\<rparr>)],
          page = List_management, logged_in_user = Some ''alice'',
          accounts_file = Some (json_dump
            [(''alice'', \<lparr>password_hash = ''00'', my_list = [''milk'']\<rparr>),
             (''bob'', \<lparr>password_hash = ''11'', my_list = [''eggs'']\<rparr>)])\<rparr>,
        [Info ([CHR 0x27] @ ''eggs' is getting deleted...''),
         Info ''DONE! 'eggs' is deleted!''], Rerun)"
proof -
  let ?st = "\<lparr>accounts = [(''alice'', \<lparr>password_hash = ''00'', my_list = [''milk'', ''eggs'']\<rparr>),
                  (''bob'', \<lparr>password_hash = ''11'', my_list = [''eggs'']\<rparr>)],
      page = List_management, logged_in_user = Some ''alice'', accounts_file = None\<rparr>"
  let ?w = "\<lparr>checkbox = (\<lambda>i. i = (1::nat)), add_new_item_input = [], add_item_button = False,
      clear_list_button = False, logout_button = False\<rparr>"
  let ?ud = "\<lparr>password_hash = ''00'', my_list = [''milk'', ''eggs'']\<rparr>"
  have "\<exists>before after.
           my_list ?ud = before @ (my_list ?ud ! 1) # after
         \<and> my_list ?ud ! 1 \<notin> set before
         \<and> remove1 (my_list ?ud ! 1) (my_list ?ud) = before @ after
         \<and> (let x = my_list ?ud ! 1;
                 accs = set_my_list ''alice'' (before @ after) (accounts ?st)
             in manage_user_list_page ?st ?w = Inr
                  (?st\<lparr>accounts := accs, accounts_file := Some (json_dump accs)\<rparr>,
                   [Info ([CHR 0x27] @ x @ [CHR 0x27] @ '' is getting deleted...''),
                    Info (''DONE! '' @ [CHR 0x27] @ x @ [CHR 0x27] @ '' is deleted!'')],
                   Rerun)
              \<and> map_of accs ''alice'' = Some (?ud\<lparr>my_list := before @ after\<rparr>)
              \<and> (\<forall>v. v \<noteq> ''alice'' \<longrightarrow> map_of accs v = map_of (accounts ?st) v))"
    by (rule remove_item_correct) simp_all
  then obtain before after where
    eq: "remove1 (my_list ?ud ! 1) (my_list ?ud) = before @ after"
    and pg: "manage_user_list_page ?st ?w = Inr
         (?st\<lparr>accounts := set_my_list ''alice'' (before @ after) (accounts ?st),
              accounts_file := Some (json_dump
                 (set_my_list ''alice'' (before @ after) (accounts ?st)))\<rparr>,
          [Info ([CHR 0x27] @ (my_list ?ud ! 1) @ [CHR 0x27] @ '' is getting deleted...''),
           Info (''DONE! '' @ [CHR 0x27] @ (my_list ?ud ! 1) @ [CHR 0x27] @ '' is deleted!'')],
          Rerun)"
    by (auto simp: Let_def)
  from eq have "before @ after = [''milk'']" by simp
  with pg show ?thesis by (simp add: set_my_list_def)
qed




lemma example_add_run:
  "manage_user_list_page
     \<lparr>accounts = [(''alice'', \<lparr>password_hash = ''00'', my_list = [''milk'']\<rparr>)],
      page = List_management, logged_in_user = Some ''alice'', accounts_file = None\<rparr>
     \<lparr>checkbox = (\<lambda>i. False), add_new_item_input = ''eggs '', add_item_button = True,
      clear_list_button = False, logout_button = False\<rparr> =
   Inr (\<lparr>accounts = [(''alice'', \<lparr>password_hash = ''00'', my_list = [''milk'', ''eggs'']\<rparr>)],
          page = List_management, logged_in_user = Some ''alice'',
          accounts_file = Some (json_dump
            [(''alice'', \<lparr>password_hash = ''00'', my_list = [''milk'', ''eggs'']\<rparr>)])\<rparr>,
        [Success ([CHR 0x27] @ ''eggs' added to your list!'')], Rerun)"
  by (simp add: manage_user_list_page_def remove_section_def add_section_def clear_section_def
      logout_section_def and_then_def Let_def strip_def lstrip_def rstrip_def isspace_def
      store_my_list_def save_accounts_def set_my_list_def)

theorem reachable_no_duplicates_witness:
  "no_duplicates [(''alice'', \<lparr>password_hash = ''00'', my_list = [''milk'']\<rparr>)]
   \<and> reachable (\<lambda>b. b)
       \<lparr>accounts = [(''alice'', \<lparr>password_hash = ''00'', my_list = [''milk'']\<rparr>)],
        page = List_management, logged_in_user = Some ''alice'', accounts_file = None\<rparr>
       \<lparr>accounts = [(''alice'', \<lparr>password_hash = ''00'', my_list = [''milk'', ''eggs'']\<rparr>)],
        page = List_management, logged_in_user = Some ''alice'',
        accounts_file = Some (json_dump
          [(''alice'', \<lparr>password_hash = ''00'', my_list = [''milk'', ''eggs'']\<rparr>)])\<rparr>
   \<and> no_duplicates [(''alice'', \<lparr>password_hash = ''00'', my_list = [''milk'', ''eggs'']\<rparr>)]"
proof -
  let ?st = "\<lparr>accounts = [(''alice'', \<lparr>password_hash = ''00'', my_list = [''milk'']\<rparr>)],
        page = List_management, logged_in_user = Some ''alice'', accounts_file = None\<rparr>"
  let ?st' = "\<lparr>accounts = [(''alice'', \<lparr>password_hash = ''00'', my_list = [''milk'', ''eggs'']\<rparr>)],
        page = List_management, logged_in_user = Some ''alice'',
        accounts_file = Some (json_dump
          [(''alice'', \<lparr>password_hash = ''00'', my_list = [''milk'', ''eggs'']\<rparr>)])\<rparr>"
  have r: "reachable (\<lambda>b. b) ?st ?st'"
    by (rule reachable_step [OF reachable_start list_step [OF example_add_run]])
  have n: "no_duplicates (accounts ?st)" by (simp add: no_duplicates_def)
  from reachable_no_duplicates [OF r n] r n show ?thesis by simp
qed

lemma example_add_reachable:
  "reachable (\<lambda>b. b)
       \<lparr>accounts = [(''alice'', \<lparr>password_hash = ''00'', my_list = [''milk'']\<rparr>)],
        page = List_management, logged_in_user = Some ''alice'', accounts_file = None\<rparr>
       \<lparr>accounts = [(''alice'', \<lparr>password_hash = ''00'', my_list = [''milk'', ''eggs'']\<rparr>)],
        page = List_management, logged_in_user = Some ''alice'',
        accounts_file = Some (json_dump
          [(''alice'', \<lparr>password_hash = ''00'', my_list = [''milk'', ''eggs'']\<rparr>)])\<rparr>"
  by (rule reachable_step [OF reachable_start list_step [OF example_add_run]])

theorem save_load_round_trip_witness:
  "reachable (\<lambda>b. b)
       \<lparr>accounts = [(''alice'', \<lparr>password_hash = ''00'', my_list = [''milk'']\<rparr>)],
        page = List_management, logged_in_user = Some ''alice'', accounts_file = None\<rparr>
       \<lparr>accounts = [(''alice'', \<lparr>password_hash = ''00'', my_list = [''milk'', ''eggs'']\<rparr>)],
        page = List_management, logged_in_user = Some ''alice'',
        accounts_file = Some (json_dump
          [(''alice'', \<lparr>password_hash = ''00'', my_list = [''milk'', ''eggs'']\<rparr>)])\<rparr>
   \<and> ascii_compatible ascii_codec
   \<and> load_accounts \<lparr>codec = ascii_codec, recursion_limit = 1000, int_max_str_digits = 4300\<rparr>
     (Some (json_dump [(''alice'', \<lparr>password_hash = ''00'', my_list = [''milk'', ''eggs'']\<rparr>)]))
   = Inr (JObj [(code_points ''alice'',
            JObj [(code_points ''password_hash'', JStr (code_points ''00'')),
                  (code_points ''my_list'',
                   JArr [JStr (code_points ''milk''), JStr (code_points ''eggs'')])])], [])"
  using save_load_round_trip [OF example_add_reachable,
      of "\<lparr>codec = ascii_codec, recursion_limit = 1000, int_max_str_digits = 4300\<rparr>"]
    ascii_compatible_ascii_codec example_add_reachable
  by (simp add: save_accounts_def json_of_store_def json_of_account_def)



end
